theory Spec2Isabelle
  imports Complex_Main
begin

section \<open>Inverted pendulum with a fuzzy controller (TP2.py)\<close>

text \<open>
  The program computes with numpy double precision numbers.  They are idealised here as
  the real numbers: every arithmetic operation of the source is the exact operation on
  \<^typ>\<open>real\<close>, and \<open>np.pi\<close> is \<^term>\<open>pi\<close>.  Rounding is modelled only for the angle
  normalisation, in a second definition of it at the end of the definitions, because its
  range and its idempotence depend on the rounding.
\<close>

subsection \<open>Physical parameters\<close>

definition gravedad :: real where "gravedad = 981 / 100"
definition masa_carro :: real where "masa_carro = 1"
definition masa_pendulo :: real where "masa_pendulo = 2 / 10"
definition longitud :: real where "longitud = 5 / 10"
definition paso_tiempo :: real where "paso_tiempo = 1 / 100"
definition tiempo_simulacion :: real where "tiempo_simulacion = 15"

text \<open>Python's \<open>int(x)\<close> on a float truncates towards zero.\<close>

definition py_int :: "real \<Rightarrow> int" where
  "py_int x = (if 0 \<le> x then \<lfloor>x\<rfloor> else \<lceil>x\<rceil>)"

definition pasos :: nat where
  "pasos = nat (py_int (tiempo_simulacion / paso_tiempo))"

subsection \<open>Numeric helpers of numpy\<close>

text \<open>
  The \<open>%\<close> operator on floats with a non-zero divisor: the result has the sign of the
  divisor, \<open>x % y = x - y * floor (x / y)\<close>.  The program only divides by \<open>2 * pi\<close>.
\<close>

definition py_mod :: "real \<Rightarrow> real \<Rightarrow> real" where
  "py_mod x y = x - y * of_int \<lfloor>x / y\<rfloor>"

definition radians :: "real \<Rightarrow> real" where
  "radians d = d * pi / 180"

definition degrees :: "real \<Rightarrow> real" where
  "degrees r = r * 180 / pi"

text \<open>\<open>np.arange(start, stop, step)\<close>: \<open>ceil((stop - start) / step)\<close> points from \<open>start\<close>.\<close>

definition arange :: "real \<Rightarrow> real \<Rightarrow> real \<Rightarrow> real list" where
  "arange start stop step =
     map (\<lambda>i. start + real i * step) [0 ..< nat \<lceil>(stop - start) / step\<rceil>]"

subsection \<open>Fuzzy variables and rules\<close>

datatype etiqueta = NG | NP | Z | PP | PG

text \<open>
  Modelled from the spec: the triangular membership function \<open>trimf\<close> of the skfuzzy
  library, which is not part of the sources.  Section 4.1 of the specification: a linear
  ramp up from \<open>a\<close> to \<open>b\<close>, a linear ramp down from \<open>b\<close> to \<open>c\<close>, zero outside \<open>[a, c]\<close>
  and 1 at \<open>b\<close>; defined for every real argument.
\<close>

definition trimf :: "real \<Rightarrow> real \<Rightarrow> real \<Rightarrow> real \<Rightarrow> real" where
  "trimf x a b c =
     (if x = b then 1
      else if a < x \<and> x < b then (x - a) / (b - a)
      else if b < x \<and> x < c then (c - x) / (c - b)
      else 0)"

text \<open>
  Modelled from the spec: the trapezoidal membership function \<open>trapmf\<close> of the skfuzzy
  library, which is not part of the sources.  Section 4.1 of the specification: a ramp up
  on \<open>[a, b]\<close>, the value 1 on the plateau \<open>[b, c]\<close>, a ramp down on \<open>[c, d]\<close> and zero
  outside; defined for every real argument.
\<close>

definition trapmf :: "real \<Rightarrow> real \<Rightarrow> real \<Rightarrow> real \<Rightarrow> real \<Rightarrow> real" where
  "trapmf x a b c d =
     (if b \<le> x \<and> x \<le> c then 1
      else if a < x \<and> x < b then (x - a) / (b - a)
      else if c < x \<and> x < d then (d - x) / (d - c)
      else 0)"

text \<open>The sampled universes of the two antecedents and of the consequent.\<close>

definition angulo_universe :: "real list" where
  "angulo_universe = arange (- (25 / 10) * pi) ((25 / 10) * pi) (1 / 100)"

definition velocidad_angular_universe :: "real list" where
  "velocidad_angular_universe = arange (- 10) 10 (1 / 10)"

definition fuerza_universe :: "real list" where
  "fuerza_universe = arange (- 50) 50 (5 / 10)"

text \<open>
  The membership functions of the three variables, with the parameters of the source.  The
  source applies each of them to the universe of its variable, so that a fuzzy set is kept
  as the list of its samples, \<open>map (angulo l) angulo_universe\<close> for the label \<open>l\<close> of the angle.
\<close>

fun angulo :: "etiqueta \<Rightarrow> real \<Rightarrow> real" where
  "angulo NG x = trapmf x (- (25 / 10) * pi) (- (25 / 10) * pi) (- pi) (- radians 150)"
| "angulo NP x = trimf x (- pi) (- radians 90) 0"
| "angulo Z x = trimf x (- radians 30) 0 (radians 30)"
| "angulo PP x = trimf x 0 (radians 90) pi"
| "angulo PG x = trapmf x (radians 150) pi ((25 / 10) * pi) ((25 / 10) * pi)"

fun velocidad_angular :: "etiqueta \<Rightarrow> real \<Rightarrow> real" where
  "velocidad_angular NG x = trapmf x (- 10) (- 10) (- 4) (- 1)"
| "velocidad_angular NP x = trimf x (- 4) (- 1) 0"
| "velocidad_angular Z x = trimf x (- 1) 0 1"
| "velocidad_angular PP x = trimf x 0 1 4"
| "velocidad_angular PG x = trapmf x 1 4 10 10"

fun fuerza :: "etiqueta \<Rightarrow> real \<Rightarrow> real" where
  "fuerza NG x = trapmf x (- 50) (- 50) (- 20) (- 10)"
| "fuerza NP x = trimf x (- 20) (- 10) 0"
| "fuerza Z x = trimf x (- 10) 0 10"
| "fuerza PP x = trimf x 0 10 20"
| "fuerza PG x = trapmf x 10 20 50 50"

text \<open>A rule: the label of the angle, the label of the velocity, the label of the force.\<close>

type_synonym regla = "etiqueta \<times> etiqueta \<times> etiqueta"

definition reglas :: "regla list" where
  "reglas =
    [(NG, NG, PG), (NG, NP, PG), (NG, Z, PP),
     (NP, NG, PG), (NP, NP, PP), (NP, Z, PP),
     (Z, NG, PP), (Z, NP, PP), (Z, Z, Z),
     (PP, Z, NP), (PP, PP, NP), (PP, PG, NG),
     (PG, Z, NP), (PG, PP, NG), (PG, PG, NG)]"

subsection \<open>The inference of the control system\<close>

datatype error = DefuzzError | InputError | KeyError

text \<open>
  The inference that \<open>ControlSystemSimulation.compute\<close> of the skfuzzy library carries out
  is not part of the sources.  Its steps are modelled from sections 3, 4.2 and 4.4 of the
  specification, one definition each.
\<close>

text \<open>
  Modelled from the spec: the evaluation of a sampled fuzzy set at a crisp input inside
  skfuzzy.  Section 3: a fuzzy set is a piecewise-linear membership function over the fixed
  sampling universe of its variable; section 4.2: the outer sets saturate beyond the range
  of the universe.  The input is clipped to the range of the universe, and the degree is
  the linear interpolation between the two samples that enclose it.  The universes are
  evenly spaced, so the enclosing cell is found from the spacing.
\<close>

definition interp_membership :: "real list \<Rightarrow> real list \<Rightarrow> real \<Rightarrow> real" where
  "interp_membership xp fp x =
     (let xc = max (hd xp) (min (last xp) x);
          i = nat \<lfloor>(xc - hd xp) / (xp ! 1 - hd xp)\<rfloor>
      in if Suc i < length xp
         then fp ! i + (xc - xp ! i) * (fp ! Suc i - fp ! i) / (xp ! Suc i - xp ! i)
         else fp ! i)"

text \<open>
  Modelled from the spec: the fuzzification inside the inference of skfuzzy.  Section 4.4,
  step 1: each of the five sets of the angle is evaluated at the angle and each of the five
  sets of the velocity at the velocity, which gives two mappings from labels to degrees.
\<close>

definition fuzz_angulo :: "real \<Rightarrow> etiqueta \<Rightarrow> real" where
  "fuzz_angulo x l = interp_membership angulo_universe (map (angulo l) angulo_universe) x"

definition fuzz_velocidad_angular :: "real \<Rightarrow> etiqueta \<Rightarrow> real" where
  "fuzz_velocidad_angular x l =
     interp_membership velocidad_angular_universe
       (map (velocidad_angular l) velocidad_angular_universe) x"

text \<open>
  Modelled from the spec: the firing strength of a rule inside the inference of skfuzzy.
  Section 4.4, step 2: the minimum of the degree of the rule's angle label and of the degree
  of the rule's velocity label, taken from the two mappings of step 1.
\<close>

definition grado_regla :: "(etiqueta \<Rightarrow> real) \<Rightarrow> (etiqueta \<Rightarrow> real) \<Rightarrow> regla \<Rightarrow> real" where
  "grado_regla ga gv r = (case r of (la, lv, lf) \<Rightarrow> min (ga la) (gv lv))"

text \<open>
  Modelled from the spec: the aggregated strength of a force label inside the inference of
  skfuzzy.  Section 4.4, step 3: the maximum of the firing strengths of the rules that
  conclude the label.
\<close>

definition activacion :: "(etiqueta \<Rightarrow> real) \<Rightarrow> (etiqueta \<Rightarrow> real) \<Rightarrow> etiqueta \<Rightarrow> real" where
  "activacion ga gv lf =
     fold max (map (grado_regla ga gv) (filter (\<lambda>r. snd (snd r) = lf) reglas)) 0"

text \<open>
  Modelled from the spec: the aggregated output membership inside the inference of skfuzzy.
  Section 4.4, steps 3 and 4: the membership function of each force label is clipped at the
  label's strength, and the five clipped functions are joined by the pointwise maximum.
\<close>

definition agregada :: "(etiqueta \<Rightarrow> real) \<Rightarrow> (etiqueta \<Rightarrow> real) \<Rightarrow> real \<Rightarrow> real" where
  "agregada ga gv u =
     fold max (map (\<lambda>l. min (activacion ga gv l) (fuerza l u)) [NG, NP, Z, PP, PG]) 0"

text \<open>
  Modelled from the spec: the centroid defuzzification of skfuzzy.  Section 4.4, step 4: the
  sum of \<open>u * mu u\<close> divided by the sum of \<open>mu u\<close> over the sampled points \<open>u\<close>.  A zero
  denominator is the failure that the \<open>try\<close> of the source guards against (sections 7
  and 9 of the specification).
\<close>

definition centroide :: "(real \<Rightarrow> real) \<Rightarrow> real list \<Rightarrow> error + real" where
  "centroide mu us =
     (let den = sum_list (map mu us)
      in if den = 0 then Inl DefuzzError
         else Inr (sum_list (map (\<lambda>u. u * mu u) us) / den))"

text \<open>
  The simulation object \<open>simulador\<close> is shared by all calls: its inputs and its output
  are dictionaries that persist between calls.
\<close>

datatype variable = Var_angulo | Var_velocidad_angular | Var_fuerza

record simulacion =
  sim_input :: "variable \<rightharpoonup> real"
  sim_output :: "variable \<rightharpoonup> real"

definition simulador :: simulacion where
  "simulador = \<lparr>sim_input = Map.empty, sim_output = Map.empty\<rparr>"

text \<open>
  Modelled from the spec: the method \<open>compute\<close> of the simulation object of skfuzzy, which
  is not part of the sources.  It reads the two inputs stored in the object, runs the
  inference of section 4.4 on them and stores the force as the output; it fails, leaving
  the object as it was, when an input is missing or the centroid has a zero denominator.
\<close>

definition compute :: "simulacion \<Rightarrow> error + simulacion" where
  "compute s =
     (case sim_input s Var_angulo of
        None \<Rightarrow> Inl InputError
      | Some a \<Rightarrow>
         (case sim_input s Var_velocidad_angular of
            None \<Rightarrow> Inl InputError
          | Some v \<Rightarrow>
             (case centroide (agregada (fuzz_angulo a) (fuzz_velocidad_angular v))
                     fuerza_universe of
                Inl e \<Rightarrow> Inl e
              | Inr f \<Rightarrow> Inr (s\<lparr>sim_output := (sim_output s)(Var_fuerza \<mapsto> f)\<rparr>))))"

subsection \<open>Auxiliary functions\<close>

definition normalizar_angulo :: "real \<Rightarrow> real" where
  "normalizar_angulo angulo_rad = py_mod (angulo_rad + pi) (2 * pi) - pi"

definition calcular_aceleracion_angular :: "real \<Rightarrow> real \<Rightarrow> real \<Rightarrow> real" where
  "calcular_aceleracion_angular angulo_rad velocidad fuerza_aplicada =
     (let angulo_norm = normalizar_angulo angulo_rad;
          numerador = gravedad * sin angulo_norm
            + cos angulo_norm
              * ((- fuerza_aplicada - masa_pendulo * longitud * velocidad ^ 2 * sin angulo_norm)
                 / (masa_carro + masa_pendulo));
          denominador = longitud
            * (4 / 3 - (masa_pendulo * (cos angulo_norm) ^ 2) / (masa_carro + masa_pendulo))
      in numerador / denominador)"

text \<open>
  \<open>calcular_fuerza\<close> stores both inputs in the shared simulation object, then runs the
  inference inside a \<open>try\<close> whose bare \<open>except\<close> returns 0 for every failure, also for
  a missing output.  The result is the force and the simulation object as the call leaves it.
\<close>

definition calcular_fuerza :: "real \<Rightarrow> real \<Rightarrow> simulacion \<Rightarrow> error + (real \<times> simulacion)" where
  "calcular_fuerza angulo_rad velocidad s =
     (let angulo_norm = normalizar_angulo angulo_rad;
          s1 = s\<lparr>sim_input := (sim_input s)(Var_angulo \<mapsto> angulo_norm)\<rparr>;
          s2 = s1\<lparr>sim_input := (sim_input s1)(Var_velocidad_angular \<mapsto> velocidad)\<rparr>
      in case compute s2 of
           Inl e \<Rightarrow> Inr (0, s2)
         | Inr s3 \<Rightarrow>
            (case sim_output s3 Var_fuerza of
               None \<Rightarrow> Inr (0, s3)
             | Some f \<Rightarrow> Inr (f, s3)))"

subsection \<open>The simulation loop\<close>

record estado =
  angulo_actual :: real
  velocidad_actual :: real
  historial_angulos :: "real list"
  historial_velocidades :: "real list"
  historial_fuerzas :: "real list"
  sim :: simulacion

text \<open>The body of the \<open>for\<close> loop of \<open>simular\<close>.\<close>

definition paso :: "estado \<Rightarrow> error + estado" where
  "paso e =
     (case calcular_fuerza (angulo_actual e) (velocidad_actual e) (sim e) of
        Inl err \<Rightarrow> Inl err
      | Inr (fuerza_aplicada, s') \<Rightarrow>
         (let aceleracion_angular =
                calcular_aceleracion_angular (angulo_actual e) (velocidad_actual e) fuerza_aplicada;
              velocidad' = velocidad_actual e + aceleracion_angular * paso_tiempo;
              angulo' = angulo_actual e
                + (velocidad' * paso_tiempo + (5 / 10) * aceleracion_angular * paso_tiempo ^ 2)
          in Inr \<lparr>angulo_actual = angulo',
                  velocidad_actual = velocidad',
                  historial_angulos = historial_angulos e @ [degrees (normalizar_angulo angulo')],
                  historial_velocidades = historial_velocidades e @ [degrees velocidad'],
                  historial_fuerzas = historial_fuerzas e @ [fuerza_aplicada],
                  sim = s'\<rparr>))"

fun bucle :: "nat \<Rightarrow> estado \<Rightarrow> error + estado" where
  "bucle 0 e = Inr e"
| "bucle (Suc n) e = (case paso e of Inl err \<Rightarrow> Inl err | Inr e' \<Rightarrow> bucle n e')"

definition estado_inicial :: "real \<Rightarrow> real \<Rightarrow> estado" where
  "estado_inicial angulo_inicial_grados velocidad_inicial =
     \<lparr>angulo_actual = radians angulo_inicial_grados,
      velocidad_actual = velocidad_inicial,
      historial_angulos = [],
      historial_velocidades = [],
      historial_fuerzas = [],
      sim = simulador\<rparr>"

text \<open>
  \<open>simular\<close> runs the loop \<open>pasos\<close> times from the initial state; the plots it then draws
  from the three histories are not modelled.
\<close>

definition simular :: "real \<Rightarrow> real \<Rightarrow> error + estado" where
  "simular angulo_inicial_grados velocidad_inicial =
     bucle pasos (estado_inicial angulo_inicial_grados velocidad_inicial)"

subsection \<open>Mirror image of a label\<close>


subsection \<open>Cells of a universe without a breakpoint\<close>

text \<open>
  The breakpoints of the sets of the angle and of the velocity, from the parameters of the
  membership functions.  They are not part of the program: they are used to say where the
  linear interpolation of the samples returns the value of the membership function itself,
  namely at every input whose cell of the universe has no breakpoint strictly inside.
\<close>

definition quiebres_angulo :: "real list" where
  "quiebres_angulo =
     [- pi, - radians 150, - radians 90, - radians 30, 0, radians 30, radians 90, radians 150, pi]"

definition quiebres_velocidad_angular :: "real list" where
  "quiebres_velocidad_angular = [- 10, - 4, - 1, 0, 1, 4, 10]"

definition celda_sin_quiebre :: "real list \<Rightarrow> real list \<Rightarrow> real \<Rightarrow> bool" where
  "celda_sin_quiebre xp quiebres x =
     (hd xp \<le> x \<and> x \<le> last xp \<and>
      (let i = nat \<lfloor>(x - hd xp) / (xp ! 1 - hd xp)\<rfloor>
       in Suc i < length xp \<longrightarrow>
          list_all (\<lambda>b. \<not> (xp ! i < b \<and> b < xp ! Suc i)) quiebres))"

subsection \<open>The angle normalisation in double precision\<close>

text \<open>
  A double precision number is a real number here; \<open>nan\<close> and the infinities are not
  modelled.  \<open>round_even\<close> rounds a real number to the nearest integer, a tie to the even
  one.  \<open>float64_round\<close> rounds a real number to the nearest number with a significand of 53
  bits, a tie to the even significand: \<open>e\<close> is the exponent of the argument and \<open>q\<close> the
  distance between the doubles of that exponent.  The exponent range is not bounded, so
  overflow and subnormal numbers are not modelled; on a double precision argument the
  operations of line 78 meet neither.
\<close>

definition round_even :: "real \<Rightarrow> int" where
  "round_even y =
     (let f = \<lfloor>y\<rfloor>; d = y - of_int f
      in if d < 1 / 2 then f else if 1 / 2 < d then f + 1 else if even f then f else f + 1)"

definition float64_round :: "real \<Rightarrow> real" where
  "float64_round x =
     (if x = 0 then 0
      else let e = \<lfloor>log 2 \<bar>x\<bar>\<rfloor>; q = 2 powr (of_int e - 52)
           in of_int (round_even (x / q)) * q)"

text \<open>
  The double precision constant \<open>np.pi\<close>, the double nearest to \<open>pi\<close>: the significand
  \<open>0x1921FB54442D18\<close> with the exponent 1.
\<close>

definition np_pi :: real where
  "np_pi = 7074237752028440 / 2 ^ 51"

text \<open>
  The \<open>%\<close> operator on double precision numbers with a non-zero divisor, as Python and
  numpy compute it: the remainder \<open>fmod\<close> of the division truncated towards zero, which
  is exact; when it is not zero and its sign differs from the sign of the divisor, the
  divisor is added to it, and this sum is rounded.
\<close>

definition float64_mod :: "real \<Rightarrow> real \<Rightarrow> real" where
  "float64_mod a b =
     (let r = a - b * of_int (py_int (a / b))
      in if r \<noteq> 0 \<and> (b < 0) \<noteq> (r < 0) then float64_round (r + b) else r)"

text \<open>
  Line 78 of the source with every operation rounded: the sum, the product \<open>2 * np.pi\<close>,
  the remainder and the difference.
\<close>

definition normalizar_angulo_float64 :: "real \<Rightarrow> real" where
  "normalizar_angulo_float64 angulo_rad =
     float64_round
       (float64_mod (float64_round (angulo_rad + np_pi)) (float64_round (2 * np_pi)) - np_pi)"

section \<open>Properties\<close>

subsection \<open>Angle normalisation\<close>

lemma py_mod_range:
  assumes y: "0 < y"
  shows "0 \<le> py_mod x y \<and> py_mod x y < y"
proof -
  define q where "q = x / y"
  have a: "of_int \<lfloor>q\<rfloor> \<le> q" and b: "q < of_int \<lfloor>q\<rfloor> + 1" by linarith+
  have x: "x = q * y" using y by (simp add: q_def)
  have "of_int \<lfloor>q\<rfloor> * y \<le> q * y"
    using a y by (simp only: mult_le_cancel_right) simp
  moreover have "q * y < (of_int \<lfloor>q\<rfloor> + 1) * y"
    using b y by (simp only: mult_less_cancel_right) simp
  ultimately show ?thesis
    unfolding py_mod_def q_def[symmetric] x by (simp add: algebra_simps)
qed

lemma py_mod_small:
  assumes "0 < y" "0 \<le> x" "x < y"
  shows "py_mod x y = x"
proof -
  have "\<lfloor>x / y\<rfloor> = 0" using assms by (simp add: floor_eq_iff)
  then show ?thesis by (simp add: py_mod_def)
qed


lemma normalizar_angulo_range:
  "- pi \<le> normalizar_angulo t \<and> normalizar_angulo t < pi"
  using py_mod_range[of "2 * pi" "t + pi"] by (simp add: normalizar_angulo_def)

lemma normalizar_angulo_id:
  "- pi \<le> t \<Longrightarrow> t < pi \<Longrightarrow> normalizar_angulo t = t"
  using py_mod_small[of "2 * pi" "t + pi"] by (simp add: normalizar_angulo_def)

lemma normalizar_angulo_pi: "normalizar_angulo pi = - pi"
proof -
  have "py_mod (2 * pi) (2 * pi) = 0" by (simp add: py_mod_def)
  then show ?thesis by (simp add: normalizar_angulo_def)
qed

subsection \<open>Rounding to double precision\<close>

lemma round_even_of_int: "round_even (of_int n) = n"
  by (simp add: round_even_def)

lemma round_even_ge_floor: "\<lfloor>z\<rfloor> \<le> round_even z"
  by (simp add: round_even_def Let_def)

lemma round_even_lower:
  assumes "of_int n \<le> z"
  shows "n \<le> round_even z"
proof -
  have "n \<le> \<lfloor>z\<rfloor>" using assms by (simp add: le_floor_iff)
  then show ?thesis using round_even_ge_floor[of z] by linarith
qed

lemma powr_desplaza:
  "(2::real) powr (of_int k + 53) = 2 ^ 53 * 2 powr of_int k"
  "(2::real) powr (of_int k + 52) = 2 ^ 52 * 2 powr of_int k"
  "(2::real) powr (of_int k + 1) = 2 * 2 powr of_int k"
  "(2::real) powr (of_int k - 52) = 2 powr of_int k / 2 ^ 52"
  by (simp_all add: powr_add powr_diff)

lemma of_int_cotas:
  "2 ^ 52 \<le> j \<Longrightarrow> (2::real) ^ 52 \<le> of_int j"
  "j < 2 ^ 53 \<Longrightarrow> of_int j < (2::real) ^ 53"
  "j \<le> 2 ^ 53 \<Longrightarrow> of_int j \<le> (2::real) ^ 53"
proof -
  show "2 ^ 52 \<le> j \<Longrightarrow> (2::real) ^ 52 \<le> of_int j"
    by (metis of_int_le_iff of_int_numeral of_int_power)
  show "j < 2 ^ 53 \<Longrightarrow> of_int j < (2::real) ^ 53"
    by (metis of_int_less_iff of_int_numeral of_int_power)
  show "j \<le> 2 ^ 53 \<Longrightarrow> of_int j \<le> (2::real) ^ 53"
    by (metis of_int_le_iff of_int_numeral of_int_power)
qed

lemma round_even_upper:
  assumes "z \<le> of_int n"
  shows "round_even z \<le> n"
proof (cases "z = of_int \<lfloor>z\<rfloor>")
  case True
  then have "round_even z = \<lfloor>z\<rfloor>" by (metis round_even_of_int)
  moreover have "\<lfloor>z\<rfloor> \<le> n" using assms by (simp add: floor_le_iff)
  ultimately show ?thesis by simp
next
  case False
  then have "z \<noteq> of_int n" by auto
  with assms have "z < of_int n" by simp
  then have "\<lfloor>z\<rfloor> < n" by (simp add: floor_less_iff)
  then show ?thesis by (simp add: round_even_def Let_def)
qed

lemma round_even_minus: "round_even (- z) = - round_even z"
proof (cases "z = of_int \<lfloor>z\<rfloor>")
  case True
  then obtain n where z: "z = of_int n" ..
  have "round_even (- of_int n) = round_even (of_int (- n))" by simp
  also have "\<dots> = - n" by (rule round_even_of_int)
  finally show ?thesis by (simp add: z round_even_of_int)
next
  case False
  define f where "f = \<lfloor>z\<rfloor>"
  define d where "d = z - of_int f"
  have d: "0 < d" "d < 1" using False by (simp_all add: d_def f_def) linarith+
  have fl: "\<lfloor>- z\<rfloor> = - f - 1"
    by (rule floor_unique) (use d in \<open>simp_all add: d_def\<close>)
  have d': "- z - of_int (- f - 1) = 1 - d" by (simp add: d_def)
  have ev: "even (- f - 1) \<longleftrightarrow> odd f" by simp
  show ?thesis
    unfolding round_even_def Let_def fl d' ev f_def[symmetric] d_def[symmetric]
    using d by auto
qed

lemma float64_round_minus: "float64_round (- x) = - float64_round x"
  by (simp add: float64_round_def Let_def round_even_minus)

lemma float64_round_binade:
  fixes e :: int
  assumes "2 powr of_int e \<le> x" "x < 2 powr (of_int e + 1)"
  shows "float64_round x = of_int (round_even (x / 2 powr (of_int e - 52))) * 2 powr (of_int e - 52)"
proof -
  have "(0::real) < 2 powr of_int e" by simp
  with assms(1) have p: "0 < x" by linarith
  have "\<lfloor>log 2 x\<rfloor> = e"
    using assms p by (simp add: floor_log_eq_powr_iff)
  then show ?thesis using p by (simp add: float64_round_def Let_def)
qed

lemma float64_round_fix_lt:
  fixes j k :: int
  assumes j: "2 ^ 52 \<le> j" "j < 2 ^ 53"
  shows "float64_round (of_int j * 2 powr of_int k) = of_int j * 2 powr of_int k"
proof -
  let ?x = "of_int j * 2 powr of_int k :: real"
  have pk: "(0::real) < 2 powr of_int k" by simp
  have "2 ^ 52 * 2 powr of_int k \<le> ?x"
    using of_int_cotas(1)[OF j(1)] pk by (simp only: mult_le_cancel_right) simp
  moreover have "(2::real) powr of_int (k + 52) = 2 ^ 52 * 2 powr of_int k"
    using powr_desplaza(2)[of k] by simp
  ultimately have a: "2 powr of_int (k + 52) \<le> ?x" by (simp only:)
  have "?x < 2 ^ 53 * 2 powr of_int k"
    using of_int_cotas(2)[OF j(2)] pk by (simp only: mult_less_cancel_right) simp
  moreover have "(2::real) powr (of_int (k + 52) + 1) = 2 ^ 53 * 2 powr of_int k"
    using powr_desplaza(1)[of k] by (simp add: add.commute)
  ultimately have b: "?x < 2 powr (of_int (k + 52) + 1)" by (simp only:)
  have q: "2 powr (of_int (k + 52) - 52) = (2::real) powr of_int k" by simp
  show ?thesis
    unfolding float64_round_binade[OF a b] q by (simp add: round_even_of_int)
qed

lemma float64_round_fix:
  fixes j k :: int
  assumes j: "2 ^ 52 \<le> j" "j \<le> 2 ^ 53"
  shows "float64_round (of_int j * 2 powr of_int k) = of_int j * 2 powr of_int k"
proof (cases "j = 2 ^ 53")
  case True
  have "of_int j * 2 powr of_int k = (2 ^ 53 * 2 powr of_int k :: real)" by (simp add: True)
  also have "\<dots> = 2 ^ 52 * 2 powr of_int (k + 1)" by (simp add: powr_add)
  also have "\<dots> = of_int (2 ^ 52) * 2 powr of_int (k + 1)" by simp
  finally have e: "of_int j * 2 powr of_int k = (of_int (2 ^ 52) * 2 powr of_int (k + 1) :: real)" .
  show ?thesis unfolding e by (rule float64_round_fix_lt) simp_all
next
  case False
  with j have "j < 2 ^ 53" by simp
  with j(1) show ?thesis by (rule float64_round_fix_lt)
qed

lemma float64_round_nonneg:
  assumes "0 \<le> x"
  shows "0 \<le> float64_round x"
proof (cases "x = 0")
  case True
  then show ?thesis by (simp add: float64_round_def)
next
  case False
  have "0 \<le> x / 2 powr (of_int \<lfloor>log 2 \<bar>x\<bar>\<rfloor> - 52)" using assms by simp
  then have "0 \<le> round_even (x / 2 powr (of_int \<lfloor>log 2 \<bar>x\<bar>\<rfloor> - 52))"
    using round_even_lower[of 0] by simp
  then show ?thesis using False by (simp add: float64_round_def Let_def)
qed

lemma float64_round_le:
  fixes j k :: int
  assumes j: "2 ^ 52 \<le> j" "j < 2 ^ 53"
    and y: "0 \<le> y" "y \<le> of_int j * 2 powr of_int k"
  shows "float64_round y \<le> of_int j * 2 powr of_int k"
proof (cases "y = 0")
  case True
  then show ?thesis using j by (simp add: float64_round_def)
next
  case False
  let ?c = "of_int j * 2 powr of_int k :: real"
  have pk: "(0::real) < 2 powr of_int k" by simp
  have p: "0 < y" using False y by simp
  define e where "e = \<lfloor>log 2 y\<rfloor>"
  have b: "2 powr of_int e \<le> y" "y < 2 powr (of_int e + 1)"
    using p floor_log_eq_powr_iff[of y 2 e] by (simp_all add: e_def)
  define q :: real where "q = 2 powr (of_int e - 52)"
  have q: "0 < q" by (simp add: q_def)
  have r: "float64_round y = of_int (round_even (y / q)) * q"
    unfolding q_def by (rule float64_round_binade[OF b])
  have "?c < 2 ^ 53 * 2 powr of_int k"
    using of_int_cotas(2)[OF j(2)] pk by (simp only: mult_less_cancel_right) simp
  then have c: "?c < 2 powr (of_int k + 53)" by (simp add: powr_desplaza)
  have "(2::real) powr of_int e < 2 powr (of_int k + 53)" using b(1) y(2) c by linarith
  then have "of_int e < (of_int k + 53 :: real)" by simp
  then have ek: "e \<le> k + 52" by linarith
  show ?thesis
  proof (cases "e = k + 52")
    case True
    then have qk: "q = 2 powr of_int k" by (simp add: q_def)
    have "y / q \<le> of_int j" using y(2) q by (simp add: qk pos_divide_le_eq)
    then have "round_even (y / q) \<le> j" by (rule round_even_upper)
    then have "(of_int (round_even (y / q)) :: real) \<le> of_int j" by simp
    then have "of_int (round_even (y / q)) * q \<le> of_int j * q"
      using q by (simp only: mult_le_cancel_right) simp
    then show ?thesis unfolding r by (simp add: qk)
  next
    case False
    with ek have lt: "e + 1 \<le> k + 52" by simp
    have q53: "2 ^ 53 * q = 2 powr (of_int e + 1)"
      by (simp add: q_def powr_desplaza)
    have "y < 2 ^ 53 * q" using b(2) q53 by simp
    then have "y / q < 2 ^ 53" using q by (simp add: pos_divide_less_eq)
    then have "y / q \<le> of_int (2 ^ 53)" by simp
    then have "round_even (y / q) \<le> 2 ^ 53" by (rule round_even_upper)
    then have "(of_int (round_even (y / q)) :: real) \<le> of_int (2 ^ 53)" by (simp only: of_int_le_iff)
    then have "of_int (round_even (y / q)) * q \<le> of_int (2 ^ 53) * q"
      using q by (simp only: mult_le_cancel_right) simp
    also have "\<dots> = 2 powr (of_int (e + 1))" using q53 by simp
    also have "\<dots> \<le> 2 powr (of_int (k + 52))" using lt by simp
    also have "\<dots> = 2 ^ 52 * 2 powr of_int k" using powr_desplaza(2)[of k] by simp
    also have "\<dots> \<le> ?c"
      using of_int_cotas(1)[OF j(1)] pk by (simp only: mult_le_cancel_right) simp
    finally show ?thesis unfolding r .
  qed
qed

subsection \<open>The range of the normalisation in double precision\<close>

lemma powr_valores:
  "(2::real) powr of_int (- 51) = 1 / 2 ^ 51"
  "(2::real) powr of_int (- 50) = 1 / 2 ^ 50"
  "(2::real) powr of_int (- 52) = 1 / 2 ^ 52"
  "(2::real) powr of_int (- 103) = 1 / 2 ^ 103"
  by (simp_all add: powr_minus_divide)

lemma np_pi_float:
  "np_pi = of_int 7074237752028440 * 2 powr of_int (- 51)"
  "2 * np_pi = of_int 7074237752028440 * 2 powr of_int (- 50)"
  "np_pi / 2 = of_int 7074237752028440 * 2 powr of_int (- 52)"
  unfolding powr_valores by (simp_all add: np_pi_def)

lemma float64_round_np_pi:
  "float64_round np_pi = np_pi" "float64_round (2 * np_pi) = 2 * np_pi"
  "float64_round (np_pi / 2) = np_pi / 2"
proof -
  show "float64_round np_pi = np_pi"
    unfolding np_pi_float(1) by (rule float64_round_fix_lt) simp_all
  show "float64_round (2 * np_pi) = 2 * np_pi"
    unfolding np_pi_float(2) by (rule float64_round_fix_lt) simp_all
  show "float64_round (np_pi / 2) = np_pi / 2"
    unfolding np_pi_float(3) by (rule float64_round_fix_lt) simp_all
qed

lemma np_pi_pos: "0 < np_pi"
  by (simp add: np_pi_def)

lemma float64_round_cota:
  assumes "0 \<le> y" "y \<le> np_pi"
  shows "0 \<le> float64_round y \<and> float64_round y \<le> np_pi"
proof
  show "0 \<le> float64_round y" using assms(1) by (rule float64_round_nonneg)
  show "float64_round y \<le> np_pi"
    using assms unfolding np_pi_float(1) by (intro float64_round_le) simp_all
qed

lemma float64_round_cota2:
  assumes "0 \<le> y" "y \<le> 2 * np_pi"
  shows "0 \<le> float64_round y \<and> float64_round y \<le> 2 * np_pi"
proof
  show "0 \<le> float64_round y" using assms(1) by (rule float64_round_nonneg)
  show "float64_round y \<le> 2 * np_pi"
    using assms unfolding np_pi_float(2) by (intro float64_round_le) simp_all
qed

lemma resto_cotas:
  fixes a b :: real
  assumes b: "0 < b"
  defines "r \<equiv> a - b * of_int (py_int (a / b))"
  shows "- b < r" and "r < b" and "0 \<le> a \<Longrightarrow> 0 \<le> r" and "a \<le> 0 \<Longrightarrow> r \<le> 0"
proof -
  define q where "q = a / b"
  have a: "a = q * b" using b by (simp add: q_def)
  have f: "of_int \<lfloor>q\<rfloor> \<le> q" "q < of_int \<lfloor>q\<rfloor> + 1"
    and c: "q \<le> of_int \<lceil>q\<rceil>" "of_int \<lceil>q\<rceil> - 1 < q" by linarith+
  have r: "r = (q - of_int (py_int q)) * b"
    unfolding r_def q_def[symmetric] by (simp add: a algebra_simps)
  have s: "0 \<le> q \<longleftrightarrow> 0 \<le> a" "q \<le> 0 \<longleftrightarrow> a \<le> 0"
    using b by (simp_all add: q_def zero_le_divide_iff divide_le_0_iff)
  have d: "- 1 < q - of_int (py_int q)" "q - of_int (py_int q) < 1"
    "0 \<le> q \<Longrightarrow> 0 \<le> q - of_int (py_int q)" "q \<le> 0 \<Longrightarrow> q - of_int (py_int q) \<le> 0"
  proof -
    show "- 1 < q - of_int (py_int q)" "q - of_int (py_int q) < 1"
      by (cases "0 \<le> q"; simp add: py_int_def; use f c in linarith)+
    show "0 \<le> q - of_int (py_int q)" if "0 \<le> q"
      using that f by (simp add: py_int_def)
    show "q - of_int (py_int q) \<le> 0" if "q \<le> 0"
      using that f c by (cases "q = 0") (simp_all add: py_int_def)
  qed
  have "- 1 * b < (q - of_int (py_int q)) * b"
    using d(1) b by (simp only: mult_less_cancel_right) simp
  then show "- b < r" by (simp add: r)
  have "(q - of_int (py_int q)) * b < 1 * b"
    using d(2) b by (simp only: mult_less_cancel_right) simp
  then show "r < b" by (simp add: r)
  show "0 \<le> r" if "0 \<le> a"
    unfolding r using d(3) that s b by (intro mult_nonneg_nonneg) simp_all
  show "r \<le> 0" if "a \<le> 0"
    unfolding r using d(4) that s b by (intro mult_nonpos_nonneg) simp_all
qed

lemma float64_mod_cotas:
  "0 \<le> float64_mod a (2 * np_pi) \<and> float64_mod a (2 * np_pi) \<le> 2 * np_pi"
proof -
  define r where "r = a - 2 * np_pi * of_int (py_int (a / (2 * np_pi)))"
  have b: "0 < 2 * np_pi" using np_pi_pos by simp
  have c: "- (2 * np_pi) < r" "r < 2 * np_pi"
    unfolding r_def by (rule resto_cotas[OF b])+
  have m: "float64_mod a (2 * np_pi)
      = (if r \<noteq> 0 \<and> r < 0 then float64_round (r + 2 * np_pi) else r)"
    unfolding float64_mod_def Let_def r_def[symmetric] using b by auto
  show ?thesis
  proof (cases "r < 0")
    case True
    then have "0 \<le> r + 2 * np_pi" "r + 2 * np_pi \<le> 2 * np_pi" using c by simp_all
    then show ?thesis unfolding m using True float64_round_cota2 by simp
  next
    case False
    then show ?thesis unfolding m using c by simp
  qed
qed

lemma normalizar_angulo_float64_cotas:
  "- np_pi \<le> normalizar_angulo_float64 x \<and> normalizar_angulo_float64 x \<le> np_pi"
proof -
  define m where "m = float64_mod (float64_round (x + np_pi)) (2 * np_pi)"
  have m: "0 \<le> m" "m \<le> 2 * np_pi" using float64_mod_cotas by (simp_all add: m_def)
  have n: "normalizar_angulo_float64 x = float64_round (m - np_pi)"
    by (simp add: normalizar_angulo_float64_def float64_round_np_pi m_def)
  show ?thesis
  proof (cases "0 \<le> m - np_pi")
    case True
    then have "0 \<le> float64_round (m - np_pi) \<and> float64_round (m - np_pi) \<le> np_pi"
      using m by (intro float64_round_cota) simp_all
    then show ?thesis unfolding n using np_pi_pos by simp
  next
    case False
    then have "0 \<le> float64_round (- (m - np_pi)) \<and> float64_round (- (m - np_pi)) \<le> np_pi"
      using m by (intro float64_round_cota) simp_all
    then show ?thesis unfolding n float64_round_minus using np_pi_pos by simp
  qed
qed

lemma float64_round_2_51: "float64_round (- (1 / 2 ^ 51)) = - (1 / 2 ^ 51)"
proof -
  have e: "1 / 2 ^ 51 = (of_int (2 ^ 52) * 2 powr of_int (- 103) :: real)"
    unfolding powr_valores by simp
  have "float64_round (1 / 2 ^ 51) = 1 / 2 ^ 51"
    unfolding e by (rule float64_round_fix_lt) simp_all
  then show ?thesis by (simp only: float64_round_minus)
qed

lemma float64_round_empate: "float64_round (2 * np_pi - 1 / 2 ^ 51) = 2 * np_pi"
proof -
  let ?y = "2 * np_pi - 1 / 2 ^ 51"
  have a: "2 powr of_int 2 \<le> ?y" by (simp add: np_pi_def)
  have b: "?y < 2 powr (of_int 2 + 1)" by (simp add: np_pi_def)
  have q: "(2::real) powr (of_int 2 - 52) = 1 / 2 ^ 50"
    using powr_valores(2) by simp
  have d: "?y / (1 / 2 ^ 50) = of_int 7074237752028439 + 1 / 2"
    by (simp add: np_pi_def)
  have "\<lfloor>of_int 7074237752028439 + 1 / 2 :: real\<rfloor> = 7074237752028439"
    by (rule floor_unique) simp_all
  then have "round_even (of_int 7074237752028439 + 1 / 2) = 7074237752028440"
    by (simp add: round_even_def Let_def)
  then show ?thesis
    unfolding float64_round_binade[OF a b] q d by (simp add: np_pi_def)
qed

subsection \<open>Numbers that round to themselves\<close>

lemma powr_nat: "0 \<le> n \<Longrightarrow> (2::real) powr of_int n = of_int (2 ^ nat n)"
  by (simp add: powr_real_of_int)

lemma float64_round_fix_pos:
  fixes c k :: int
  assumes c: "0 < c" "c < 2 ^ 53"
  shows "float64_round (of_int c * 2 powr of_int k) = of_int c * 2 powr of_int k"
proof -
  let ?x = "of_int c * 2 powr of_int k :: real"
  have pk: "(0::real) < 2 powr of_int k" by simp
  have x: "0 < ?x" using c(1) by simp
  define e where "e = \<lfloor>log 2 ?x\<rfloor>"
  have b: "2 powr of_int e \<le> ?x" "?x < 2 powr (of_int e + 1)"
    using x floor_log_eq_powr_iff[of ?x 2 e] by (simp_all add: e_def)
  have "(1::real) \<le> of_int c" using c(1) by simp
  then have "1 * 2 powr of_int k \<le> ?x"
    using pk by (simp only: mult_le_cancel_right) simp
  then have "2 powr of_int k \<le> ?x" by (simp only: mult_1)
  then have "(2::real) powr of_int k < 2 powr (of_int e + 1)" using b(2) by linarith
  then have "of_int k < (of_int e + 1 :: real)" by simp
  then have ke: "k \<le> e" by linarith
  have "?x < 2 ^ 53 * 2 powr of_int k"
    using of_int_cotas(2)[OF c(2)] pk by (simp only: mult_less_cancel_right) simp
  then have "?x < 2 powr (of_int k + 53)" by (simp add: powr_desplaza)
  then have "(2::real) powr of_int e < 2 powr (of_int k + 53)" using b(1) by linarith
  then have "of_int e < (of_int k + 53 :: real)" by simp
  then have ek: "e \<le> k + 52" by linarith
  define q :: real where "q = 2 powr (of_int e - 52)"
  have q: "0 < q" by (simp add: q_def)
  have "2 powr of_int k = q * 2 powr of_int (k + 52 - e)"
    by (simp add: q_def powr_add[symmetric])
  also have "2 powr of_int (k + 52 - e) = (of_int (2 ^ nat (k + 52 - e)) :: real)"
    using ek by (intro powr_nat) simp
  finally have "?x / q = of_int c * of_int (2 ^ nat (k + 52 - e))" using q by simp
  then have d: "?x / q = of_int (c * 2 ^ nat (k + 52 - e))" by simp
  have "float64_round ?x = of_int (round_even (?x / q)) * q"
    unfolding q_def by (rule float64_round_binade[OF b])
  also have "\<dots> = ?x / q * q" unfolding d round_even_of_int ..
  also have "\<dots> = ?x" using q by simp
  finally show ?thesis .
qed

lemma float64_round_fix_abs:
  fixes c k :: int
  assumes c: "\<bar>c\<bar> < 2 ^ 53"
  shows "float64_round (of_int c * 2 powr of_int k) = of_int c * 2 powr of_int k"
proof -
  consider "c = 0" | "0 < c" | "c < 0" by linarith
  then show ?thesis
  proof cases
    case 1
    then show ?thesis by (simp add: float64_round_def)
  next
    case 2
    then show ?thesis using c by (intro float64_round_fix_pos) simp_all
  next
    case 3
    then have "float64_round (of_int (- c) * 2 powr of_int k) = of_int (- c) * 2 powr of_int k"
      using c by (intro float64_round_fix_pos) simp_all
    then have "float64_round (- (of_int c * 2 powr of_int k)) = - (of_int c * 2 powr of_int k)"
      by simp
    then show ?thesis by (simp only: float64_round_minus neg_equal_iff_equal)
  qed
qed

lemma float64_round_malla_pos:
  fixes g :: int
  assumes y: "2 powr of_int g \<le> y"
  shows "\<exists>c::int. float64_round y = of_int c * 2 powr (of_int g - 52)"
proof -
  have "(0::real) < 2 powr of_int g" by simp
  with y have p: "0 < y" by linarith
  define e where "e = \<lfloor>log 2 y\<rfloor>"
  have b: "2 powr of_int e \<le> y" "y < 2 powr (of_int e + 1)"
    using p floor_log_eq_powr_iff[of y 2 e] by (simp_all add: e_def)
  have "(2::real) powr of_int g < 2 powr (of_int e + 1)" using y b(2) by linarith
  then have "of_int g < (of_int e + 1 :: real)" by simp
  then have ge: "g \<le> e" by linarith
  have "2 powr (of_int e - 52) = 2 powr of_int (e - g) * (2::real) powr (of_int g - 52)"
    by (simp add: powr_add[symmetric])
  also have "2 powr of_int (e - g) = (of_int (2 ^ nat (e - g)) :: real)"
    using ge by (intro powr_nat) simp
  finally have q: "2 powr (of_int e - 52)
      = of_int (2 ^ nat (e - g)) * (2::real) powr (of_int g - 52)" .
  have "float64_round y
      = of_int (round_even (y / 2 powr (of_int e - 52)) * 2 ^ nat (e - g))
        * 2 powr (of_int g - 52)"
    unfolding float64_round_binade[OF b] by (subst (2) q) simp
  then show ?thesis ..
qed

lemma float64_round_malla:
  fixes g :: int
  assumes y: "2 powr of_int g \<le> \<bar>y\<bar>"
  shows "\<exists>c::int. float64_round y = of_int c * 2 powr (of_int g - 52)"
proof (cases "0 \<le> y")
  case True
  then show ?thesis using y by (intro float64_round_malla_pos) simp
next
  case False
  then have "2 powr of_int g \<le> - y" using y by simp
  then obtain c :: int where "float64_round (- y) = of_int c * 2 powr (of_int g - 52)"
    using float64_round_malla_pos by blast
  then have "float64_round y = of_int (- c) * 2 powr (of_int g - 52)"
    by (simp add: float64_round_minus)
  then show ?thesis ..
qed

lemma float64_round_idem: "float64_round (float64_round y) = float64_round y"
proof -
  have pos: "float64_round (float64_round y) = float64_round y" if p: "0 < y" for y
  proof -
    define e where "e = \<lfloor>log 2 y\<rfloor>"
    have b: "2 powr of_int e \<le> y" "y < 2 powr (of_int e + 1)"
      using p floor_log_eq_powr_iff[of y 2 e] by (simp_all add: e_def)
    define q :: real where "q = 2 powr (of_int e - 52)"
    have q: "0 < q" by (simp add: q_def)
    have r: "float64_round y = of_int (round_even (y / q)) * 2 powr of_int (e - 52)"
      using float64_round_binade[OF b] by (simp add: q_def)
    have q52: "2 ^ 52 * q = 2 powr of_int e" "2 ^ 53 * q = 2 powr (of_int e + 1)"
      by (simp_all add: q_def powr_desplaza)
    have "2 ^ 52 * q \<le> y" using b(1) q52 by simp
    then have "of_int (2 ^ 52) \<le> y / q" using q by (simp add: pos_le_divide_eq)
    then have lo: "2 ^ 52 \<le> round_even (y / q)" by (rule round_even_lower)
    have "y < 2 ^ 53 * q" using b(2) q52 by simp
    then have "y / q \<le> of_int (2 ^ 53)" using q by (simp add: pos_divide_le_eq)
    then have hi: "round_even (y / q) \<le> 2 ^ 53" by (rule round_even_upper)
    show ?thesis unfolding r by (rule float64_round_fix[OF lo hi])
  qed
  consider "y = 0" | "0 < y" | "y < 0" by linarith
  then show ?thesis
  proof cases
    case 1
    then show ?thesis by (simp add: float64_round_def)
  next
    case 2
    then show ?thesis by (rule pos)
  next
    case 3
    then have "float64_round (float64_round (- y)) = float64_round (- y)"
      by (intro pos) simp
    then show ?thesis by (simp only: float64_round_minus neg_equal_iff_equal)
  qed
qed

subsection \<open>Normalising a normalised angle in double precision\<close>

lemma py_int_pequeno:
  fixes a b :: real
  assumes "0 < b" "\<bar>a\<bar> < b"
  shows "py_int (a / b) = 0"
proof -
  have q: "- 1 < a / b" "a / b < 1"
    using assms by (simp_all add: pos_less_divide_eq pos_divide_less_eq)
  show ?thesis
  proof (cases "0 \<le> a / b")
    case True
    then have "\<lfloor>a / b\<rfloor> = 0" using q by (intro floor_unique) simp_all
    then show ?thesis using True by (simp add: py_int_def)
  next
    case False
    then have "\<lceil>a / b\<rceil> = 0" using q by (intro ceiling_unique) simp_all
    then show ?thesis using False by (simp add: py_int_def)
  qed
qed

lemma resto_float:
  assumes a: "float64_round a = a"
  shows "float64_round (a - 2 * np_pi * of_int (py_int (a / (2 * np_pi))))
         = a - 2 * np_pi * of_int (py_int (a / (2 * np_pi)))"
proof (cases "\<bar>a\<bar> < 2 * np_pi")
  case True
  then have "py_int (a / (2 * np_pi)) = 0"
    using np_pi_pos by (intro py_int_pequeno) simp_all
  then show ?thesis using a by simp
next
  case False
  define n where "n = py_int (a / (2 * np_pi))"
  have "(2::real) powr of_int 2 \<le> 2 * np_pi" by (simp add: np_pi_def)
  then have "2 powr of_int 2 \<le> \<bar>a\<bar>" using False by linarith
  then obtain c :: int where "float64_round a = of_int c * 2 powr (of_int 2 - 52)"
    using float64_round_malla by blast
  then have ac: "a = of_int c * 2 powr of_int (- 50)" using a by simp
  have r: "a - 2 * np_pi * of_int n = of_int (c - 7074237752028440 * n) * 2 powr of_int (- 50)"
    unfolding np_pi_float(2) ac by (simp add: algebra_simps)
  have b: "(0::real) < 2 * np_pi" using np_pi_pos by simp
  have "- (2 * np_pi) < a - 2 * np_pi * of_int n" "a - 2 * np_pi * of_int n < 2 * np_pi"
    unfolding n_def by (rule resto_cotas[OF b])+
  then have "\<bar>of_int (c - 7074237752028440 * n) * 2 powr of_int (- 50)\<bar>
      < of_int 7074237752028440 * (2::real) powr of_int (- 50)"
    unfolding r[symmetric] np_pi_float(2)[symmetric] by simp
  then have "\<bar>of_int (c - 7074237752028440 * n) :: real\<bar> * 2 powr of_int (- 50)
      < of_int 7074237752028440 * (2::real) powr of_int (- 50)"
    by (simp only: abs_mult) simp
  then have "\<bar>of_int (c - 7074237752028440 * n) :: real\<bar> < of_int 7074237752028440"
    by (simp only: mult_less_cancel_right) simp
  then have "\<bar>c - 7074237752028440 * n\<bar> < 7074237752028440"
    by (simp only: of_int_abs[symmetric] of_int_less_iff)
  then have "\<bar>c - 7074237752028440 * n\<bar> < 2 ^ 53" by simp
  then show ?thesis
    unfolding n_def[symmetric] r by (rule float64_round_fix_abs)
qed

lemma float64_mod_float:
  assumes "float64_round a = a"
  shows "float64_round (float64_mod a (2 * np_pi)) = float64_mod a (2 * np_pi)"
  unfolding float64_mod_def Let_def
  using resto_float[OF assms] by (simp add: float64_round_idem)

lemma float64_round_fix_abs_le:
  fixes c k :: int
  assumes c: "\<bar>c\<bar> \<le> 2 ^ 53"
  shows "float64_round (of_int c * 2 powr of_int k) = of_int c * 2 powr of_int k"
proof -
  consider "\<bar>c\<bar> < 2 ^ 53" | "c = 2 ^ 53" | "c = - (2 ^ 53)" using c by linarith
  then show ?thesis
  proof cases
    case 1
    then show ?thesis by (rule float64_round_fix_abs)
  next
    case 2
    show ?thesis unfolding 2 by (rule float64_round_fix) simp_all
  next
    case 3
    have "float64_round (of_int (2 ^ 53) * 2 powr of_int k) = of_int (2 ^ 53) * 2 powr of_int k"
      by (rule float64_round_fix) simp_all
    then have "float64_round (- (of_int (2 ^ 53) * 2 powr of_int k))
        = - (of_int (2 ^ 53) * 2 powr of_int k)"
      by (simp only: float64_round_minus)
    then show ?thesis unfolding 3 by simp
  qed
qed

lemma multiplo_cota:
  fixes c d :: int and k :: int
  assumes "\<bar>of_int c * 2 powr of_int k\<bar> \<le> of_int d * (2::real) powr of_int k"
  shows "\<bar>c\<bar> \<le> d"
proof -
  have "\<bar>of_int c :: real\<bar> * 2 powr of_int k \<le> of_int d * (2::real) powr of_int k"
    using assms by (simp only: abs_mult) simp
  then have "\<bar>of_int c :: real\<bar> \<le> of_int d"
    by (simp only: mult_le_cancel_right) simp
  then show ?thesis by (simp only: of_int_abs[symmetric] of_int_le_iff)
qed

lemma resta_exacta_a:
  assumes m: "float64_round m = m" "np_pi - 2 \<le> m" "m \<le> 2"
  shows "float64_round (m - np_pi) = m - np_pi"
proof -
  have "(2::real) powr of_int 0 \<le> \<bar>m\<bar>" using m(2) by (simp add: np_pi_def)
  then obtain c :: int where "float64_round m = of_int c * 2 powr (of_int 0 - 52)"
    using float64_round_malla by blast
  then have mc: "m = of_int c * 2 powr of_int (- 52)" using m(1) by simp
  have p: "np_pi = of_int (2 * 7074237752028440) * 2 powr of_int (- 52)"
    unfolding powr_valores by (simp add: np_pi_def)
  have d: "2 = of_int (2 ^ 53) * (2::real) powr of_int (- 52)"
    unfolding powr_valores by simp
  have r: "m - np_pi = of_int (c - 2 * 7074237752028440) * 2 powr of_int (- 52)"
    unfolding mc by (subst p) (simp add: algebra_simps)
  have "\<bar>m - np_pi\<bar> \<le> 2" using m(2,3) np_pi_pos by linarith
  then have "\<bar>of_int (c - 2 * 7074237752028440) * 2 powr of_int (- 52)\<bar>
      \<le> of_int (2 ^ 53) * (2::real) powr of_int (- 52)"
    unfolding r[symmetric] d[symmetric] .
  then have "\<bar>c - 2 * 7074237752028440\<bar> \<le> 2 ^ 53" by (rule multiplo_cota)
  then show ?thesis unfolding r by (rule float64_round_fix_abs_le)
qed

lemma resta_exacta_b:
  assumes m: "float64_round m = m" "2 \<le> m" "m \<le> 2 * np_pi"
  shows "float64_round (m - np_pi) = m - np_pi"
proof -
  have "(2::real) powr of_int 1 \<le> \<bar>m\<bar>" using m(2) by simp
  then obtain c :: int where "float64_round m = of_int c * 2 powr (of_int 1 - 52)"
    using float64_round_malla by blast
  then have mc: "m = of_int c * 2 powr of_int (- 51)" using m(1) by simp
  have r: "m - np_pi = of_int (c - 7074237752028440) * 2 powr of_int (- 51)"
    unfolding mc np_pi_float(1) by (simp add: algebra_simps)
  have "\<bar>m - np_pi\<bar> \<le> np_pi" using m(2,3) by linarith
  then have "\<bar>of_int (c - 7074237752028440) * 2 powr of_int (- 51)\<bar>
      \<le> of_int 7074237752028440 * (2::real) powr of_int (- 51)"
    unfolding r[symmetric] np_pi_float(1)[symmetric] .
  then have "\<bar>c - 7074237752028440\<bar> \<le> 7074237752028440" by (rule multiplo_cota)
  then have "\<bar>c - 7074237752028440\<bar> \<le> 2 ^ 53" by simp
  then show ?thesis unfolding r by (rule float64_round_fix_abs_le)
qed

lemma suma_exacta:
  assumes m: "0 \<le> m" "m \<le> np_pi - 2"
  shows "float64_round (float64_round (m - np_pi) + np_pi) = float64_round (m - np_pi) + np_pi"
proof -
  define z where "z = float64_round (m - np_pi)"
  have "(2::real) powr of_int 1 \<le> \<bar>m - np_pi\<bar>" using m by simp
  then obtain c :: int where "float64_round (m - np_pi) = of_int c * 2 powr (of_int 1 - 52)"
    using float64_round_malla by blast
  then have zc: "z = of_int c * 2 powr of_int (- 51)" by (simp add: z_def)
  have r: "z + np_pi = of_int (c + 7074237752028440) * 2 powr of_int (- 51)"
    unfolding zc np_pi_float(1) by (simp add: algebra_simps)
  have "0 \<le> float64_round (- (m - np_pi)) \<and> float64_round (- (m - np_pi)) \<le> np_pi"
    using m by (intro float64_round_cota) simp_all
  moreover have "float64_round (- (m - np_pi)) = - z"
    unfolding z_def by (rule float64_round_minus)
  ultimately have "\<bar>z + np_pi\<bar> \<le> np_pi" by linarith
  then have "\<bar>of_int (c + 7074237752028440) * 2 powr of_int (- 51)\<bar>
      \<le> of_int 7074237752028440 * (2::real) powr of_int (- 51)"
    unfolding r[symmetric] np_pi_float(1)[symmetric] .
  then have "\<bar>c + 7074237752028440\<bar> \<le> 7074237752028440" by (rule multiplo_cota)
  then have "\<bar>c + 7074237752028440\<bar> \<le> 2 ^ 53" by simp
  then show ?thesis unfolding z_def[symmetric] r by (rule float64_round_fix_abs_le)
qed

lemma float64_mod_pequeno:
  assumes "0 \<le> a" "a < 2 * np_pi"
  shows "float64_mod a (2 * np_pi) = a"
proof -
  have "py_int (a / (2 * np_pi)) = 0"
    using assms np_pi_pos by (intro py_int_pequeno) simp_all
  then show ?thesis using assms by (simp add: float64_mod_def Let_def)
qed

lemma normalizar_angulo_float64_idem:
  assumes z: "normalizar_angulo_float64 x \<noteq> np_pi"
  shows "normalizar_angulo_float64 (normalizar_angulo_float64 x) = normalizar_angulo_float64 x"
proof -
  define a where "a = float64_round (x + np_pi)"
  define m where "m = float64_mod a (2 * np_pi)"
  define z where "z = float64_round (m - np_pi)"
  have n: "normalizar_angulo_float64 x = z"
    by (simp add: normalizar_angulo_float64_def float64_round_np_pi z_def m_def a_def)
  have af: "float64_round a = a" unfolding a_def by (rule float64_round_idem)
  have mf: "float64_round m = m" unfolding m_def by (rule float64_mod_float[OF af])
  have mr: "0 \<le> m" "m \<le> 2 * np_pi" using float64_mod_cotas[of a] by (simp_all add: m_def)
  have zr: "- np_pi \<le> z" "z < np_pi"
    using normalizar_angulo_float64_cotas[of x] z unfolding n by simp_all
  have zf: "float64_round z = z" unfolding z_def by (rule float64_round_idem)
  have s: "float64_round (z + np_pi) = z + np_pi"
  proof -
    consider "m \<le> np_pi - 2" | "np_pi - 2 \<le> m" "m \<le> 2" | "2 \<le> m" by linarith
    then show ?thesis
    proof cases
      case 1
      then show ?thesis unfolding z_def using mr(1) by (intro suma_exacta) simp_all
    next
      case 2
      have "z = m - np_pi" unfolding z_def by (rule resta_exacta_a[OF mf 2])
      then have "z + np_pi = m" by simp
      then show ?thesis using mf by simp
    next
      case 3
      have "z = m - np_pi" unfolding z_def by (rule resta_exacta_b[OF mf 3 mr(2)])
      then have "z + np_pi = m" by simp
      then show ?thesis using mf by simp
    qed
  qed
  have "float64_mod (z + np_pi) (2 * np_pi) = z + np_pi"
    using zr by (intro float64_mod_pequeno) simp_all
  then have "normalizar_angulo_float64 z = z"
    by (simp add: normalizar_angulo_float64_def float64_round_np_pi s zf)
  then show ?thesis unfolding n .
qed

lemma normalizar_angulo_float64_0: "normalizar_angulo_float64 0 = 0"
proof -
  have "float64_mod np_pi (2 * np_pi) = np_pi"
    using np_pi_pos by (intro float64_mod_pequeno) simp_all
  moreover have "float64_round 0 = 0" by (simp add: float64_round_def)
  ultimately show ?thesis
    by (simp add: normalizar_angulo_float64_def float64_round_np_pi)
qed

text \<open>
  C1, as the claim states it, fails in double precision: the normalisation is not
  idempotent.  The double next below \<open>- np.pi\<close> is \<open>- np.pi - 2 ^ - 51\<close>.  There the sum with
  \<open>np.pi\<close> is \<open>- 2 ^ - 51\<close>, its remainder has the sign opposite to the divisor, and adding
  \<open>2 * np.pi\<close> to it is a tie that rounds to \<open>2 * np.pi\<close>: the normalised value is \<open>np.pi\<close>.
  Normalising \<open>np.pi\<close> gives \<open>- np.pi\<close>, the end that the interval of the claim leaves out
  when its \<open>pi\<close> is the constant \<open>np.pi\<close> of the program.
\<close>

theorem C1_counterexample:
  "normalizar_angulo_float64 (- np_pi - 1 / 2 ^ 51) = np_pi
   \<and> normalizar_angulo_float64 (normalizar_angulo_float64 (- np_pi - 1 / 2 ^ 51)) = - np_pi
   \<and> normalizar_angulo_float64 (normalizar_angulo_float64 (- np_pi - 1 / 2 ^ 51))
       \<noteq> normalizar_angulo_float64 (- np_pi - 1 / 2 ^ 51)"
proof -
  have r1: "float64_round (- np_pi - 1 / 2 ^ 51 + np_pi) = - (1 / 2 ^ 51)"
    using float64_round_2_51 by simp
  have q1: "py_int (- (1 / 2 ^ 51) / (2 * np_pi)) = 0"
  proof -
    have "\<lceil>- (1 / 2 ^ 51) / (2 * np_pi)\<rceil> = 0"
      by (rule ceiling_unique) (simp_all add: np_pi_def)
    moreover have "\<not> 0 \<le> - (1 / 2 ^ 51) / (2 * np_pi)" by (simp add: np_pi_def)
    ultimately show ?thesis by (simp only: py_int_def if_False)
  qed
  have m1: "float64_mod (- (1 / 2 ^ 51)) (2 * np_pi) = 2 * np_pi"
    unfolding float64_mod_def Let_def q1 using np_pi_pos float64_round_empate
    by (simp add: add.commute)
  have 1: "normalizar_angulo_float64 (- np_pi - 1 / 2 ^ 51) = np_pi"
    unfolding normalizar_angulo_float64_def r1 float64_round_np_pi m1
    by (simp add: float64_round_np_pi)
  have r2: "float64_round (np_pi + np_pi) = 2 * np_pi"
    using float64_round_np_pi(2) by simp
  have q2: "py_int (2 * np_pi / (2 * np_pi)) = 1"
    using np_pi_pos by (simp add: py_int_def)
  have m2: "float64_mod (2 * np_pi) (2 * np_pi) = 0"
    unfolding float64_mod_def Let_def q2 by simp
  have 2: "normalizar_angulo_float64 np_pi = - np_pi"
    unfolding normalizar_angulo_float64_def r2 float64_round_np_pi m2
    using float64_round_np_pi(1) by (simp add: float64_round_minus)
  show ?thesis unfolding 1 2 using np_pi_pos by simp
qed

text \<open>
  C1 (amended): for every angle the normalised angle lies in the closed interval from
  \<open>- np.pi\<close> to \<open>np.pi\<close>, the interval of the docstring of the source; and normalising it
  again returns the same value, unless the normalised angle is \<open>np.pi\<close> (which normalises
  to \<open>- np.pi\<close>).  Proved on the double precision model of line 78.
\<close>

theorem C1_normalizar_angulo_float64:
  "- np_pi \<le> normalizar_angulo_float64 x \<and> normalizar_angulo_float64 x \<le> np_pi
   \<and> (normalizar_angulo_float64 x \<noteq> np_pi
        \<longrightarrow> normalizar_angulo_float64 (normalizar_angulo_float64 x)
            = normalizar_angulo_float64 x)"
  using normalizar_angulo_float64_cotas[of x] normalizar_angulo_float64_idem[of x] by blast

theorem C1_normalizar_angulo_float64_witness:
  "- np_pi \<le> normalizar_angulo_float64 0 \<and> normalizar_angulo_float64 0 \<le> np_pi
   \<and> normalizar_angulo_float64 0 \<noteq> np_pi
   \<and> normalizar_angulo_float64 (normalizar_angulo_float64 0) = normalizar_angulo_float64 0"
proof -
  have "normalizar_angulo_float64 0 \<noteq> np_pi"
    using np_pi_pos by (simp add: normalizar_angulo_float64_0)
  with C1_normalizar_angulo_float64[of 0] show ?thesis by blast
qed

subsection \<open>Parameters\<close>

lemma pasos_val: "pasos = 1500"
  by (simp add: pasos_def py_int_def tiempo_simulacion_def paso_tiempo_def)

subsection \<open>Dynamics\<close>

lemma denominador_pos:
  "0 < longitud * (4 / 3 - (masa_pendulo * (cos t) ^ 2) / (masa_carro + masa_pendulo))"
proof -
  have "(cos t) ^ 2 \<le> 1" by (simp add: abs_square_le_1 power2_eq_square[symmetric])
  then show ?thesis by (simp add: longitud_def masa_pendulo_def masa_carro_def)
qed

lemma normalizar_angulo_0: "normalizar_angulo 0 = 0"
  by (rule normalizar_angulo_id) simp_all

text \<open>
  C7: for every angle, velocity and force the angular acceleration is the quotient of the
  numerator \<open>g sin t + cos t ((- f - m_p L v\<^sup>2 sin t) / (m_c + m_p))\<close> and the denominator
  \<open>L (4/3 - m_p cos\<^sup>2 t / (m_c + m_p))\<close>, where \<open>t\<close> is the normalised angle used in every
  trigonometric evaluation; the denominator is never zero; and the acceleration at angle 0,
  velocity 0 and force 0 is 0.
\<close>

theorem C7_calcular_aceleracion_angular:
  "calcular_aceleracion_angular a v f =
     (gravedad * sin (normalizar_angulo a)
        + cos (normalizar_angulo a)
          * ((- f - masa_pendulo * longitud * v ^ 2 * sin (normalizar_angulo a))
             / (masa_carro + masa_pendulo)))
     / (longitud * (4 / 3 - masa_pendulo * (cos (normalizar_angulo a)) ^ 2 / (masa_carro + masa_pendulo)))
   \<and> longitud * (4 / 3 - masa_pendulo * (cos (normalizar_angulo a)) ^ 2 / (masa_carro + masa_pendulo)) \<noteq> 0
   \<and> calcular_aceleracion_angular 0 0 0 = 0"
proof -
  have "longitud * (4 / 3 - masa_pendulo * (cos (normalizar_angulo a)) ^ 2 / (masa_carro + masa_pendulo)) \<noteq> 0"
    using denominador_pos[of "normalizar_angulo a"] by linarith
  moreover have "calcular_aceleracion_angular 0 0 0 = 0"
    by (simp add: calcular_aceleracion_angular_def Let_def normalizar_angulo_0)
  ultimately show ?thesis
    by (simp only: calcular_aceleracion_angular_def Let_def) simp
qed

subsection \<open>The force as a function of the two inputs\<close>


lemma calcular_fuerza_val:
  "\<exists>s'. calcular_fuerza a v s =
     Inr (case centroide
                 (agregada (fuzz_angulo (normalizar_angulo a)) (fuzz_velocidad_angular v))
                 fuerza_universe of
            Inl e \<Rightarrow> 0 | Inr f \<Rightarrow> f, s')"
  by (simp add: calcular_fuerza_def compute_def Let_def split: sum.splits)

subsection \<open>The simulation loop\<close>

lemma paso_total: "\<exists>e'. paso e = Inr e'"
proof -
  obtain f s' where "calcular_fuerza (angulo_actual e) (velocidad_actual e) (sim e) = Inr (f, s')"
    using calcular_fuerza_val[of "angulo_actual e" "velocidad_actual e" "sim e"] by blast
  then show ?thesis by (simp add: paso_def Let_def)
qed

lemma bucle_total: "\<exists>e'. bucle n e = Inr e'"
proof (induction n arbitrary: e)
  case 0
  show ?case by simp
next
  case (Suc n)
  obtain e1 where "paso e = Inr e1" using paso_total by blast
  with Suc show ?case by simp
qed

lemma bucle_add:
  "bucle (m + n) e = (case bucle m e of Inl err \<Rightarrow> Inl err | Inr e' \<Rightarrow> bucle n e')"
proof (induction m arbitrary: e)
  case 0
  show ?case by simp
next
  case (Suc m)
  show ?case by (cases "paso e") (simp_all add: Suc)
qed

lemma bucle_snoc:
  "bucle (Suc n) e = (case bucle n e of Inl err \<Rightarrow> Inl err | Inr e' \<Rightarrow> paso e')"
proof -
  have "bucle (n + Suc 0) e =
      (case bucle n e of Inl err \<Rightarrow> Inl err | Inr e' \<Rightarrow> bucle (Suc 0) e')"
    by (rule bucle_add)
  moreover have "bucle (Suc 0) e' = paso e'" for e'
    by (cases "paso e'") simp_all
  ultimately show ?thesis by (cases "bucle n e") (simp_all del: bucle.simps)
qed

lemma paso_historial:
  assumes "paso e = Inr e'"
  shows "\<exists>f s'. calcular_fuerza (angulo_actual e) (velocidad_actual e) (sim e) = Inr (f, s')
      \<and> velocidad_actual e' = velocidad_actual e
            + calcular_aceleracion_angular (angulo_actual e) (velocidad_actual e) f * paso_tiempo
      \<and> angulo_actual e' = angulo_actual e
            + (velocidad_actual e' * paso_tiempo
               + (5 / 10) * calcular_aceleracion_angular (angulo_actual e) (velocidad_actual e) f
                 * paso_tiempo ^ 2)
      \<and> historial_fuerzas e' = historial_fuerzas e @ [f]
      \<and> historial_angulos e' = historial_angulos e @ [degrees (normalizar_angulo (angulo_actual e'))]
      \<and> historial_velocidades e' = historial_velocidades e @ [degrees (velocidad_actual e')]"
proof -
  obtain f s' where c: "calcular_fuerza (angulo_actual e) (velocidad_actual e) (sim e) = Inr (f, s')"
    using calcular_fuerza_val[of "angulo_actual e" "velocidad_actual e" "sim e"] by blast
  with assms show ?thesis by (auto simp add: paso_def Let_def)
qed

lemma paso_prefix:
  assumes "paso e = Inr e'"
  shows "length (historial_fuerzas e') = Suc (length (historial_fuerzas e))
      \<and> length (historial_angulos e') = Suc (length (historial_angulos e))
      \<and> length (historial_velocidades e') = Suc (length (historial_velocidades e))
      \<and> (\<forall>i < length (historial_fuerzas e). historial_fuerzas e' ! i = historial_fuerzas e ! i)
      \<and> (\<forall>i < length (historial_angulos e). historial_angulos e' ! i = historial_angulos e ! i)
      \<and> (\<forall>i < length (historial_velocidades e).
             historial_velocidades e' ! i = historial_velocidades e ! i)"
  using paso_historial[OF assms] by (auto simp add: nth_append)

lemma bucle_prefix:
  "bucle n e = Inr e' \<Longrightarrow>
     length (historial_fuerzas e') = length (historial_fuerzas e) + n
      \<and> length (historial_angulos e') = length (historial_angulos e) + n
      \<and> length (historial_velocidades e') = length (historial_velocidades e) + n
      \<and> (\<forall>i < length (historial_fuerzas e). historial_fuerzas e' ! i = historial_fuerzas e ! i)
      \<and> (\<forall>i < length (historial_angulos e). historial_angulos e' ! i = historial_angulos e ! i)
      \<and> (\<forall>i < length (historial_velocidades e).
             historial_velocidades e' ! i = historial_velocidades e ! i)"
proof (induction n arbitrary: e)
  case 0
  then show ?case by simp
next
  case (Suc n)
  obtain e1 where p: "paso e = Inr e1" using paso_total by blast
  with Suc.prems have b: "bucle n e1 = Inr e'" by simp
  from Suc.IH[OF b] paso_prefix[OF p] show ?case by simp
qed

lemma estado_inicial_historial:
  "historial_fuerzas (estado_inicial g v) = []
   \<and> historial_angulos (estado_inicial g v) = []
   \<and> historial_velocidades (estado_inicial g v) = []"
  by (simp add: estado_inicial_def)

lemma bucle_paso_i:
  assumes i: "i < n"
  shows "\<exists>ei ei' en. bucle i e = Inr ei \<and> paso ei = Inr ei' \<and> bucle (Suc i) e = Inr ei'
     \<and> bucle n e = Inr en \<and> bucle (n - Suc i) ei' = Inr en"
proof -
  obtain ei where 1: "bucle i e = Inr ei" using bucle_total by blast
  obtain ei' where 2: "paso ei = Inr ei'" using paso_total by blast
  have 3: "bucle (Suc i) e = Inr ei'" using 1 2 by (simp only: bucle_snoc) simp
  obtain en where 4: "bucle (n - Suc i) ei' = Inr en" using bucle_total by blast
  have "bucle (Suc i + (n - Suc i)) e = Inr en" using 3 4 by (simp only: bucle_add) simp
  then have 5: "bucle n e = Inr en" using i by simp
  from 1 2 3 4 5 show ?thesis by blast
qed

text \<open>
  C6: every step \<open>i\<close> of the simulation integrates the state by the stated scheme.  With
  the state before the step and the state after it, the force is computed from the state
  before the step, the acceleration is evaluated once from the state before the step and
  that force, the new velocity is the old velocity plus acceleration times \<open>dt\<close>, and the
  new angle is the old angle plus the new velocity times \<open>dt\<close> plus half the same
  acceleration times \<open>dt\<^sup>2\<close>.
\<close>

theorem C6_paso_integracion:
  "i < pasos \<Longrightarrow>
   \<exists>ei ei' f s'.
      bucle i (estado_inicial g v) = Inr ei
    \<and> bucle (Suc i) (estado_inicial g v) = Inr ei'
    \<and> calcular_fuerza (angulo_actual ei) (velocidad_actual ei) (sim ei) = Inr (f, s')
    \<and> velocidad_actual ei' = velocidad_actual ei
          + calcular_aceleracion_angular (angulo_actual ei) (velocidad_actual ei) f * paso_tiempo
    \<and> angulo_actual ei' = angulo_actual ei
          + (velocidad_actual ei' * paso_tiempo
             + (5 / 10) * calcular_aceleracion_angular (angulo_actual ei) (velocidad_actual ei) f
               * paso_tiempo ^ 2)"
proof -
  assume "i < pasos"
  then obtain ei ei' where 1: "bucle i (estado_inicial g v) = Inr ei" and 2: "paso ei = Inr ei'"
    and 3: "bucle (Suc i) (estado_inicial g v) = Inr ei'"
    using bucle_paso_i[of i pasos "estado_inicial g v"] by blast
  from paso_historial[OF 2] 1 3 show ?thesis by blast
qed

theorem C6_paso_integracion_witness: "(0::nat) < pasos \<and> (\<exists>ei ei' f s'.
      bucle 0 (estado_inicial 175 0) = Inr ei
    \<and> bucle (Suc 0) (estado_inicial 175 0) = Inr ei'
    \<and> calcular_fuerza (angulo_actual ei) (velocidad_actual ei) (sim ei) = Inr (f, s')
    \<and> velocidad_actual ei' = velocidad_actual ei
          + calcular_aceleracion_angular (angulo_actual ei) (velocidad_actual ei) f * paso_tiempo
    \<and> angulo_actual ei' = angulo_actual ei
          + (velocidad_actual ei' * paso_tiempo
             + (5 / 10) * calcular_aceleracion_angular (angulo_actual ei) (velocidad_actual ei) f
               * paso_tiempo ^ 2))"
proof -
  have h: "(0::nat) < pasos" by (simp add: pasos_val)
  from h C6_paso_integracion[OF h, of 175 0] show ?thesis by (simp only:) 
qed

text \<open>
  C10: history alignment.  For every step index \<open>i\<close> below the number of steps, the run
  returns, the force recorded at index \<open>i\<close> is the force computed from the state at the
  start of step \<open>i\<close>, and the angle and velocity recorded at index \<open>i\<close> are those of the
  state after step \<open>i\<close>, in degrees, the angle normalised.
\<close>

theorem C10_historial_alineado:
  "i < pasos \<Longrightarrow>
   \<exists>ei ei' en f s'.
      bucle i (estado_inicial g v) = Inr ei
    \<and> bucle (Suc i) (estado_inicial g v) = Inr ei'
    \<and> simular g v = Inr en
    \<and> calcular_fuerza (angulo_actual ei) (velocidad_actual ei) (sim ei) = Inr (f, s')
    \<and> historial_fuerzas en ! i = f
    \<and> historial_angulos en ! i = degrees (normalizar_angulo (angulo_actual ei'))
    \<and> historial_velocidades en ! i = degrees (velocidad_actual ei')"
proof -
  assume "i < pasos"
  then obtain ei ei' en where 1: "bucle i (estado_inicial g v) = Inr ei" and 2: "paso ei = Inr ei'"
    and 3: "bucle (Suc i) (estado_inicial g v) = Inr ei'"
    and 4: "bucle pasos (estado_inicial g v) = Inr en"
    and 5: "bucle (pasos - Suc i) ei' = Inr en"
    using bucle_paso_i[of i pasos "estado_inicial g v"] by blast
  from bucle_prefix[OF 1] estado_inicial_historial[of g v]
  have len: "length (historial_fuerzas ei) = i" "length (historial_angulos ei) = i"
    "length (historial_velocidades ei) = i" by simp_all
  from paso_historial[OF 2] obtain f s' where
    c: "calcular_fuerza (angulo_actual ei) (velocidad_actual ei) (sim ei) = Inr (f, s')"
    and hf: "historial_fuerzas ei' = historial_fuerzas ei @ [f]"
    and ha: "historial_angulos ei' = historial_angulos ei @ [degrees (normalizar_angulo (angulo_actual ei'))]"
    and hv: "historial_velocidades ei' = historial_velocidades ei @ [degrees (velocidad_actual ei')]"
    by blast
  from bucle_prefix[OF 5] hf ha hv len
  have "historial_fuerzas en ! i = historial_fuerzas ei' ! i"
    "historial_angulos en ! i = historial_angulos ei' ! i"
    "historial_velocidades en ! i = historial_velocidades ei' ! i" by simp_all
  moreover have "(xs @ [x]) ! i = x" if "length xs = i" for xs :: "real list" and x
    using that by auto
  ultimately
  have "historial_fuerzas en ! i = f"
    "historial_angulos en ! i = degrees (normalizar_angulo (angulo_actual ei'))"
    "historial_velocidades en ! i = degrees (velocidad_actual ei')"
    using hf ha hv len by simp_all
  with 1 3 4 c show ?thesis unfolding simular_def by blast
qed

theorem C10_historial_alineado_witness:
  "(0::nat) < pasos \<and> (\<exists>ei ei' en f s'.
      bucle 0 (estado_inicial 175 0) = Inr ei
    \<and> bucle (Suc 0) (estado_inicial 175 0) = Inr ei'
    \<and> simular 175 0 = Inr en
    \<and> calcular_fuerza (angulo_actual ei) (velocidad_actual ei) (sim ei) = Inr (f, s')
    \<and> historial_fuerzas en ! 0 = f
    \<and> historial_angulos en ! 0 = degrees (normalizar_angulo (angulo_actual ei'))
    \<and> historial_velocidades en ! 0 = degrees (velocidad_actual ei'))"
proof -
  have h: "(0::nat) < pasos" by (simp add: pasos_val)
  from h C10_historial_alineado[OF h, of 175 0] show ?thesis by (simp only:)
qed

subsection \<open>Membership degrees and firing strengths\<close>

lemma fuerza_universe_eq:
  "fuerza_universe = map (\<lambda>i. - 50 + real i * (1 / 2)) [0 ..< 200]"
  by (simp add: fuerza_universe_def arange_def)

lemma pi_not_le_0: "\<not> pi \<le> 0"
  using pi_gt_zero by linarith

lemma trimf_range: "a < b \<Longrightarrow> b < c \<Longrightarrow> 0 \<le> trimf x a b c \<and> trimf x a b c \<le> 1"
  by (simp add: trimf_def)

lemma trapmf_range: "a \<le> b \<Longrightarrow> c \<le> d \<Longrightarrow> 0 \<le> trapmf x a b c d \<and> trapmf x a b c d \<le> 1"
  by (simp add: trapmf_def)

lemma fuerza_range: "0 \<le> fuerza l u \<and> fuerza l u \<le> 1"
  by (cases l) (simp_all add: trimf_range trapmf_range)

lemma velocidad_angular_range: "0 \<le> velocidad_angular l u \<and> velocidad_angular l u \<le> 1"
  by (cases l) (simp_all add: trimf_range trapmf_range)

lemma angulo_range: "0 \<le> angulo l u \<and> angulo l u \<le> 1"
  by (cases l) (simp_all add: trimf_range trapmf_range radians_def pi_not_le_0)

lemma activacion_eq:
  "activacion ga gv NG =
     max (min (ga PG) (gv PG)) (max (min (ga PG) (gv PP)) (max (min (ga PP) (gv PG)) 0))"
  "activacion ga gv NP =
     max (min (ga PG) (gv Z)) (max (min (ga PP) (gv PP)) (max (min (ga PP) (gv Z)) 0))"
  "activacion ga gv Z = max (min (ga Z) (gv Z)) 0"
  "activacion ga gv PP =
     max (min (ga Z) (gv NP))
      (max (min (ga Z) (gv NG))
        (max (min (ga NP) (gv Z)) (max (min (ga NP) (gv NP)) (max (min (ga NG) (gv Z)) 0))))"
  "activacion ga gv PG =
     max (min (ga NP) (gv NG)) (max (min (ga NG) (gv NP)) (max (min (ga NG) (gv NG)) 0))"
  by (simp_all only: activacion_def reglas_def grado_regla_def filter.simps snd_conv
        etiqueta.simps if_True if_False refl list.map fold.simps o_apply id_apply
        case_prod_conv)

lemma agregada_eq:
  "agregada ga gv u =
     max (min (activacion ga gv PG) (fuerza PG u))
      (max (min (activacion ga gv PP) (fuerza PP u))
        (max (min (activacion ga gv Z) (fuerza Z u))
          (max (min (activacion ga gv NP) (fuerza NP u))
            (max (min (activacion ga gv NG) (fuerza NG u)) 0))))"
  by (simp only: agregada_def list.map fold.simps o_apply id_apply)


lemma fold_max_ge: "(z::real) \<le> fold max xs z"
proof (induction xs arbitrary: z)
  case Nil
  show ?case by simp
next
  case (Cons x xs)
  have "z \<le> max x z" by simp
  also have "\<dots> \<le> fold max xs (max x z)" by (rule Cons.IH)
  finally show ?case by simp
qed


lemma agregada_nonneg: "0 \<le> agregada ga gv u"
  unfolding agregada_def by (rule fold_max_ge)










subsection \<open>The centroid over the sampled force universe\<close>



















subsection \<open>The sampled universes of the inputs\<close>

lemma cos_cotas:
  assumes x: "0 < x"
  shows "\<bar>cos x - (\<Sum>m<12. cos_coeff m * x ^ m)\<bar> \<le> x ^ 12 / 479001600"
proof -
  obtain t where "cos x = (\<Sum>m<12. cos_coeff m * x ^ m)
      + (cos (t + 1 / 2 * real (12::nat) * pi) / fact 12) * x ^ 12"
    using Maclaurin_cos_expansion2[OF x, of 12] by auto
  then have "cos x - (\<Sum>m<12. cos_coeff m * x ^ m)
      = cos (t + 1 / 2 * real (12::nat) * pi) * (x ^ 12 / fact 12)"
    by simp
  then have "\<bar>cos x - (\<Sum>m<12. cos_coeff m * x ^ m)\<bar>
      = \<bar>cos (t + 1 / 2 * real (12::nat) * pi)\<bar> * (x ^ 12 / fact 12)"
    using x by (simp add: abs_mult)
  also have "\<dots> \<le> 1 * (x ^ 12 / fact 12)"
    using x by (intro mult_right_mono abs_cos_le_one) simp
  finally show ?thesis by (simp add: fact_numeral)
qed

lemma suma_cos:
  "(\<Sum>m<12. cos_coeff m * x ^ m)
     = 1 - x^2 / 2 + x^4 / 24 - x^6 / 720 + x^8 / 40320 - x^10 / 3628800"
  by (simp add: cos_coeff_def lessThan_nat_numeral fact_numeral)

lemma pi_cotas_finas: "31415 / 10000 < pi" "pi < 31416 / 10000"
proof -
  let ?P = "\<lambda>x::real. 1 - x^2 / 2 + x^4 / 24 - x^6 / 720 + x^8 / 40320 - x^10 / 3628800"
  have "?P (31415 / 20000) - (31415 / 20000) ^ 12 / 479001600 \<le> cos (31415 / 20000 :: real)"
    using cos_cotas[of "31415 / 20000"] unfolding suma_cos abs_le_iff by linarith
  moreover have "0 < ?P (31415 / 20000) - (31415 / 20000) ^ 12 / 479001600"
    by (simp add: power_divide)
  ultimately have a: "0 < cos (31415 / 20000 :: real)" by linarith
  have "31415 / 20000 < pi / 2"
  proof (rule ccontr)
    assume "\<not> 31415 / 20000 < pi / 2"
    then have "pi / 2 \<le> 31415 / 20000" by simp
    moreover have "(31415 / 20000 :: real) \<le> pi" using pi_ge_two by linarith
    ultimately have "cos (31415 / 20000 :: real) \<le> cos (pi / 2)"
      by (intro cos_monotone_0_pi_le) simp_all
    with a show False by simp
  qed
  then show "31415 / 10000 < pi" by simp
  have "cos (31416 / 20000 :: real) \<le> ?P (31416 / 20000) + (31416 / 20000) ^ 12 / 479001600"
    using cos_cotas[of "31416 / 20000"] unfolding suma_cos abs_le_iff by linarith
  moreover have "?P (31416 / 20000) + (31416 / 20000) ^ 12 / 479001600 < 0"
    by (simp add: power_divide)
  ultimately have b: "cos (31416 / 20000 :: real) < 0" by linarith
  have "pi / 2 < 31416 / 20000"
  proof (rule ccontr)
    assume "\<not> pi / 2 < 31416 / 20000"
    then have "31416 / 20000 \<le> pi / 2" by simp
    then have "0 \<le> cos (31416 / 20000 :: real)" by (intro cos_ge_zero) simp_all
    with b show False by simp
  qed
  then show "pi < 31416 / 10000" by simp
qed

lemma pi_cotas: "314 / 100 < pi" "pi < 3142 / 1000"
  using pi_cotas_finas by simp_all

lemma velocidad_angular_universe_eq:
  "velocidad_angular_universe = map (\<lambda>i. - 10 + real i * (1 / 10)) [0 ..< 200]"
  by (simp add: velocidad_angular_universe_def arange_def)

lemma angulo_universe_eq:
  "angulo_universe = map (\<lambda>i. - (5 / 2) * pi + real i * (1 / 100)) [0 ..< 1571]"
proof -
  have "\<lceil>500 * pi\<rceil> = 1571"
    using pi_cotas by (intro ceiling_unique) simp_all
  then have "nat \<lceil>((25 / 10) * pi - (- (25 / 10) * pi)) / (1 / 100)\<rceil> = 1571"
    by simp
  then show ?thesis
    unfolding angulo_universe_def arange_def by (simp only:) simp
qed

lemma celda:
  fixes s h x :: real
  assumes h: "0 < h" and lo: "s \<le> x"
  defines "i \<equiv> nat \<lfloor>(x - s) / h\<rfloor>"
  shows "s + real i * h \<le> x" and "x < s + real i * h + h"
proof -
  define q where "q = (x - s) / h"
  have nn: "0 \<le> q" using h lo by (simp add: q_def)
  then have r: "real i = of_int \<lfloor>q\<rfloor>" by (simp add: i_def q_def)
  have x: "x - s = q * h" using h by (simp add: q_def)
  have a: "of_int \<lfloor>q\<rfloor> \<le> q" and b: "q < of_int \<lfloor>q\<rfloor> + 1" by linarith+
  have "of_int \<lfloor>q\<rfloor> * h \<le> q * h"
    using a h by (simp only: mult_le_cancel_right) simp
  then show "s + real i * h \<le> x" using x by (simp add: r)
  have "q * h < (of_int \<lfloor>q\<rfloor> + 1) * h"
    using b h by (simp only: mult_less_cancel_right) simp
  then have "x - s < real i * h + h" using x by (simp add: r algebra_simps)
  then show "x < s + real i * h + h" by linarith
qed

lemma interp_grid:
  fixes s h x :: real
  assumes n: "2 \<le> n" and h: "0 < h" and lo: "s \<le> x" and hi: "x \<le> s + real (n - 1) * h"
  shows "interp_membership (map (\<lambda>i. s + real i * h) [0 ..< n])
           (map f (map (\<lambda>i. s + real i * h) [0 ..< n])) x =
         (let i = nat \<lfloor>(x - s) / h\<rfloor>; l = s + real i * h
          in if Suc i < n then f l + (x - l) * (f (l + h) - f l) / h else f l)"
proof -
  let ?g = "\<lambda>i. s + real i * h"
  let ?xp = "map ?g [0 ..< n]"
  define i where "i = nat \<lfloor>(x - s) / h\<rfloor>"
  have ne: "[0 ..< n] \<noteq> []" using n by simp
  have hd: "hd ?xp = s" using ne by (simp add: hd_map)
  have la: "last ?xp = s + real (n - 1) * h" using ne by (simp add: last_map)
  have x1: "?xp ! 1 = s + h" using n by simp
  have xc: "max (hd ?xp) (min (last ?xp) x) = x" using lo hi by (simp add: hd la)
  have "(x - s) / h \<le> real (n - 1)" using hi h by (simp add: pos_divide_le_eq)
  then have "\<lfloor>(x - s) / h\<rfloor> \<le> int (n - 1)" by linarith
  then have i: "i < n" using n by (simp add: i_def)
  have xi: "?xp ! i = ?g i" using i by simp
  have fi: "map f ?xp ! i = f (?g i)" using i by simp
  have ii: "nat \<lfloor>(x - hd ?xp) / (?xp ! 1 - hd ?xp)\<rfloor> = i"
    unfolding hd x1 by (simp add: i_def)
  show ?thesis
  proof (cases "Suc i < n")
    case True
    then have "?xp ! Suc i = ?g i + h" "map f ?xp ! Suc i = f (?g i + h)"
      by (simp_all add: algebra_simps)
    then show ?thesis
      unfolding interp_membership_def xc ii Let_def i_def[symmetric] xi fi
      using True by simp
  next
    case False
    then show ?thesis
      unfolding interp_membership_def xc ii Let_def i_def[symmetric] xi fi
      by simp
  qed
qed

lemma trimf_izq: "a < b \<Longrightarrow> a \<le> y \<Longrightarrow> y \<le> b \<Longrightarrow> trimf y a b c = (y - a) / (b - a)"
  by (simp add: trimf_def)

lemma trimf_der: "b < c \<Longrightarrow> b \<le> y \<Longrightarrow> y \<le> c \<Longrightarrow> trimf y a b c = (c - y) / (c - b)"
  by (auto simp add: trimf_def)

lemma trimf_fuera: "a < b \<Longrightarrow> b < c \<Longrightarrow> y \<le> a \<or> c \<le> y \<Longrightarrow> trimf y a b c = 0"
  by (auto simp add: trimf_def)

lemma trapmf_meseta: "b \<le> y \<Longrightarrow> y \<le> c \<Longrightarrow> trapmf y a b c d = 1"
  by (simp add: trapmf_def)

lemma trapmf_izq:
  "a < b \<Longrightarrow> b \<le> c \<Longrightarrow> a \<le> y \<Longrightarrow> y \<le> b \<Longrightarrow> trapmf y a b c d = (y - a) / (b - a)"
  by (auto simp add: trapmf_def)

lemma trapmf_der:
  "c < d \<Longrightarrow> b \<le> c \<Longrightarrow> c \<le> y \<Longrightarrow> y \<le> d \<Longrightarrow> trapmf y a b c d = (d - y) / (d - c)"
  by (auto simp add: trapmf_def)

lemma trapmf_fuera_izq: "a < b \<Longrightarrow> b \<le> c \<Longrightarrow> y \<le> a \<Longrightarrow> trapmf y a b c d = 0"
  by (auto simp add: trapmf_def)

lemma trapmf_fuera_der: "c < d \<Longrightarrow> b \<le> c \<Longrightarrow> d \<le> y \<Longrightarrow> trapmf y a b c d = 0"
  by (auto simp add: trapmf_def)

subsection \<open>Membership functions that are affine on a cell\<close>

lemma afin:
  fixes lo hi x m k :: real
  assumes "lo < hi"
  shows "(m * lo + k) + (x - lo) * ((m * hi + k) - (m * lo + k)) / (hi - lo) = m * x + k"
proof -
  have "(x - lo) * ((m * hi + k) - (m * lo + k)) / (hi - lo) = (x - lo) * m"
    using assms by (simp add: field_simps)
  then show ?thesis by (simp add: algebra_simps)
qed

lemma trimf_afin:
  assumes abc: "a < b" "b < c" and x: "lo \<le> x" "x \<le> hi" "lo < hi"
    and q: "\<not> (lo < a \<and> a < hi)" "\<not> (lo < b \<and> b < hi)" "\<not> (lo < c \<and> c < hi)"
  shows "trimf lo a b c + (x - lo) * (trimf hi a b c - trimf lo a b c) / (hi - lo) = trimf x a b c"
proof -
  consider "hi \<le> a" | "a \<le> lo \<and> hi \<le> b" | "b \<le> lo \<and> hi \<le> c" | "c \<le> lo"
    using q abc x by linarith
  then show ?thesis
  proof cases
    case 1
    then have "trimf lo a b c = 0" "trimf hi a b c = 0" "trimf x a b c = 0"
      using abc x by (simp_all add: trimf_fuera)
    then show ?thesis by simp
  next
    case 2
    then have e: "trimf y a b c = (1 / (b - a)) * y + (- a / (b - a))" if "lo \<le> y" "y \<le> hi" for y
      using abc that by (simp add: trimf_izq diff_divide_distrib)
    show ?thesis
      using x by (simp only: e[of lo] e[of hi] e[of x] order_refl less_imp_le afin[OF x(3)])
  next
    case 3
    then have e: "trimf y a b c = (- 1 / (c - b)) * y + (c / (c - b))" if "lo \<le> y" "y \<le> hi" for y
      using abc that by (simp add: trimf_der diff_divide_distrib)
    show ?thesis
      using x by (simp only: e[of lo] e[of hi] e[of x] order_refl less_imp_le afin[OF x(3)])
  next
    case 4
    then have "trimf lo a b c = 0" "trimf hi a b c = 0" "trimf x a b c = 0"
      using abc x by (simp_all add: trimf_fuera)
    then show ?thesis by simp
  qed
qed

lemma trapmf_afin_izq:
  assumes bcd: "b \<le> c" "c < d" and x: "lo \<le> x" "x \<le> hi" "lo < hi" "b \<le> lo"
    and q: "\<not> (lo < c \<and> c < hi)" "\<not> (lo < d \<and> d < hi)"
  shows "trapmf lo b b c d + (x - lo) * (trapmf hi b b c d - trapmf lo b b c d) / (hi - lo)
         = trapmf x b b c d"
proof -
  consider "hi \<le> c" | "c \<le> lo \<and> hi \<le> d" | "d \<le> lo"
    using q bcd x by linarith
  then show ?thesis
  proof cases
    case 1
    then have "trapmf lo b b c d = 1" "trapmf hi b b c d = 1" "trapmf x b b c d = 1"
      using bcd x by (simp_all add: trapmf_meseta)
    then show ?thesis by simp
  next
    case 2
    then have e: "trapmf y b b c d = (- 1 / (d - c)) * y + (d / (d - c))"
      if "lo \<le> y" "y \<le> hi" for y
      using bcd that by (simp add: trapmf_der diff_divide_distrib)
    show ?thesis
      using x by (simp only: e[of lo] e[of hi] e[of x] order_refl less_imp_le afin[OF x(3)])
  next
    case 3
    then have "trapmf lo b b c d = 0" "trapmf hi b b c d = 0" "trapmf x b b c d = 0"
      using bcd x by (simp_all add: trapmf_fuera_der)
    then show ?thesis by simp
  qed
qed

lemma trapmf_afin_der:
  assumes abc: "a < b" "b \<le> c" and x: "lo \<le> x" "x \<le> hi" "lo < hi" "hi \<le> c"
    and q: "\<not> (lo < a \<and> a < hi)" "\<not> (lo < b \<and> b < hi)"
  shows "trapmf lo a b c c + (x - lo) * (trapmf hi a b c c - trapmf lo a b c c) / (hi - lo)
         = trapmf x a b c c"
proof -
  consider "hi \<le> a" | "a \<le> lo \<and> hi \<le> b" | "b \<le> lo"
    using q abc x by linarith
  then show ?thesis
  proof cases
    case 1
    then have "trapmf lo a b c c = 0" "trapmf hi a b c c = 0" "trapmf x a b c c = 0"
      using abc x by (simp_all add: trapmf_fuera_izq)
    then show ?thesis by simp
  next
    case 2
    then have e: "trapmf y a b c c = (1 / (b - a)) * y + (- a / (b - a))"
      if "lo \<le> y" "y \<le> hi" for y
      using abc that by (simp add: trapmf_izq diff_divide_distrib)
    show ?thesis
      using x by (simp only: e[of lo] e[of hi] e[of x] order_refl less_imp_le afin[OF x(3)])
  next
    case 3
    then have "trapmf lo a b c c = 1" "trapmf hi a b c c = 1" "trapmf x a b c c = 1"
      using abc x by (simp_all add: trapmf_meseta)
    then show ?thesis by simp
  qed
qed

subsection \<open>Interpolation on a cell without a breakpoint\<close>

lemma nth_grid:
  "i < n \<Longrightarrow> map (\<lambda>i. s + real i * h) [0 ..< n] ! i = s + real i * (h::real)"
  by simp

lemma celda_sin_quiebre_grid:
  fixes s h x :: real
  assumes n: "2 \<le> n" and h: "0 < h"
    and c: "celda_sin_quiebre (map (\<lambda>i. s + real i * h) [0 ..< n]) qs x"
  defines "i \<equiv> nat \<lfloor>(x - s) / h\<rfloor>"
  shows "s \<le> x" and "x \<le> s + real (n - 1) * h"
    and "Suc i < n \<Longrightarrow> list_all (\<lambda>b. \<not> (s + real i * h < b \<and> b < s + real i * h + h)) qs"
proof -
  let ?xp = "map (\<lambda>i. s + real i * h) [0 ..< n]"
  have ne: "[0 ..< n] \<noteq> []" using n by simp
  have hd: "hd ?xp = s" using ne by (simp add: hd_map)
  have la: "last ?xp = s + real (n - 1) * h" using ne by (simp add: last_map)
  have x1: "?xp ! 1 - hd ?xp = h" using n by (simp add: hd)
  from c show "s \<le> x" "x \<le> s + real (n - 1) * h"
    unfolding celda_sin_quiebre_def hd la by simp_all
  assume i: "Suc i < n"
  then have "?xp ! i = s + real i * h" "?xp ! Suc i = s + real i * h + h"
    by (simp_all add: algebra_simps)
  with c i show "list_all (\<lambda>b. \<not> (s + real i * h < b \<and> b < s + real i * h + h)) qs"
    unfolding celda_sin_quiebre_def hd la x1 Let_def i_def by simp
qed

lemma interp_exacto:
  fixes s h x :: real
  assumes n: "2 \<le> n" and h: "0 < h" and lo: "s \<le> x" and hi: "x \<le> s + real (n - 1) * h"
    and af: "\<And>l. l \<le> x \<Longrightarrow> x < l + h \<Longrightarrow> s \<le> l \<Longrightarrow> l + h \<le> s + real (n - 1) * h
             \<Longrightarrow> l = s + real (nat \<lfloor>(x - s) / h\<rfloor>) * h
             \<Longrightarrow> f l + (x - l) * (f (l + h) - f l) / (l + h - l) = f x"
  shows "interp_membership (map (\<lambda>i. s + real i * h) [0 ..< n])
           (map f (map (\<lambda>i. s + real i * h) [0 ..< n])) x = f x"
proof -
  define i where "i = nat \<lfloor>(x - s) / h\<rfloor>"
  define l where "l = s + real i * h"
  have c: "l \<le> x" "x < l + h"
    using celda[OF h lo] by (simp_all add: l_def i_def)
  have sl: "s \<le> l" using h by (simp add: l_def)
  have e: "interp_membership (map (\<lambda>i. s + real i * h) [0 ..< n])
           (map f (map (\<lambda>i. s + real i * h) [0 ..< n])) x =
        (if Suc i < n then f l + (x - l) * (f (l + h) - f l) / h else f l)"
    unfolding interp_grid[OF n h lo hi] Let_def i_def[symmetric] l_def[symmetric] ..
  show ?thesis
  proof (cases "Suc i < n")
    case True
    then have "real (Suc i) \<le> real (n - 1)" by simp
    then have "real (Suc i) * h \<le> real (n - 1) * h" using h by (simp only: mult_le_cancel_right) simp
    then have "l + h \<le> s + real (n - 1) * h" by (simp add: l_def algebra_simps)
    from af[OF c sl this] have "f l + (x - l) * (f (l + h) - f l) / h = f x"
      by (simp add: l_def i_def)
    with True show ?thesis unfolding e by simp
  next
    case False
    have "(x - s) / h \<le> real (n - 1)" using hi h by (simp add: pos_divide_le_eq)
    then have "\<lfloor>(x - s) / h\<rfloor> \<le> int (n - 1)" by linarith
    then have "i \<le> n - 1" by (simp add: i_def)
    with False n have "i = n - 1" by simp
    then have "l = s + real (n - 1) * h" by (simp add: l_def)
    with c hi have "x = l" by simp
    with False show ?thesis unfolding e by simp
  qed
qed

lemma fuzz_angulo_exacto:
  assumes c: "celda_sin_quiebre angulo_universe quiebres_angulo x"
  shows "fuzz_angulo x l = angulo l x"
proof -
  let ?s = "- (5 / 2) * pi" and ?h = "1 / 100 :: real"
  have n: "2 \<le> (1571::nat)" and h: "0 < ?h" by simp_all
  note g = celda_sin_quiebre_grid[OF n h c[unfolded angulo_universe_eq]]
  have p: "0 < pi" "pi < 3142 / 1000" "314 / 100 < pi" using pi_cotas by simp_all
  have "interp_membership (map (\<lambda>i. ?s + real i * ?h) [0 ..< 1571])
           (map (angulo l) (map (\<lambda>i. ?s + real i * ?h) [0 ..< 1571])) x = angulo l x"
  proof (rule interp_exacto[OF n h g(1) g(2)])
    fix lo
    assume lo: "lo \<le> x" "x < lo + ?h" "?s \<le> lo" "lo + ?h \<le> ?s + real (1571 - 1) * ?h"
      and e: "lo = ?s + real (nat \<lfloor>(x - ?s) / ?h\<rfloor>) * ?h"
    define k where "k = nat \<lfloor>(x - ?s) / ?h\<rfloor>"
    have "Suc k < 1571"
    proof (rule ccontr)
      assume "\<not> Suc k < 1571"
      then have "1570 \<le> k" by simp
      then have "1570 \<le> real k" by simp
      then have "?s + 1570 * ?h \<le> lo" unfolding e k_def[symmetric] by simp
      with lo(4) show False by simp
    qed
    then have "Suc (nat \<lfloor>(x - ?s) / ?h\<rfloor>) < 1571" unfolding k_def .
    from g(3)[OF this] have q: "list_all (\<lambda>b. \<not> (lo < b \<and> b < lo + ?h)) quiebres_angulo"
      unfolding e .
    have x: "lo \<le> x" "x \<le> lo + ?h" "lo < lo + ?h" using lo by simp_all
    have top: "lo + ?h \<le> (25 / 10) * pi" using lo(4) p by simp
    have bot: "- (25 / 10) * pi \<le> lo" using lo(3) by simp
    from q have qq:
      "\<not> (lo < - pi \<and> - pi < lo + ?h)" "\<not> (lo < - radians 150 \<and> - radians 150 < lo + ?h)"
      "\<not> (lo < - radians 90 \<and> - radians 90 < lo + ?h)"
      "\<not> (lo < - radians 30 \<and> - radians 30 < lo + ?h)" "\<not> (lo < 0 \<and> 0 < lo + ?h)"
      "\<not> (lo < radians 30 \<and> radians 30 < lo + ?h)" "\<not> (lo < radians 90 \<and> radians 90 < lo + ?h)"
      "\<not> (lo < radians 150 \<and> radians 150 < lo + ?h)" "\<not> (lo < pi \<and> pi < lo + ?h)"
      by (simp_all add: quiebres_angulo_def)
    have o: "- (25 / 10) * pi \<le> - pi" "- pi < - radians 150" "- pi < - radians 90"
      "- radians 90 < 0" "- radians 30 < 0" "0 < radians 30" "0 < radians 90" "radians 90 < pi"
      "radians 150 < pi" "pi \<le> (25 / 10) * pi"
      using p(1) by (simp_all add: radians_def)
    show "angulo l lo + (x - lo) * (angulo l (lo + ?h) - angulo l lo) / (lo + ?h - lo) = angulo l x"
    proof (cases l)
      case NG
      show ?thesis unfolding NG angulo.simps
        by (rule trapmf_afin_izq[OF o(1) o(2) x bot qq(1) qq(2)])
    next
      case NP
      show ?thesis unfolding NP angulo.simps
        by (rule trimf_afin[OF o(3) o(4) x qq(1) qq(3) qq(5)])
    next
      case Z
      show ?thesis unfolding Z angulo.simps
        by (rule trimf_afin[OF o(5) o(6) x qq(4) qq(5) qq(6)])
    next
      case PP
      show ?thesis unfolding PP angulo.simps
        by (rule trimf_afin[OF o(7) o(8) x qq(5) qq(7) qq(9)])
    next
      case PG
      show ?thesis unfolding PG angulo.simps
        by (rule trapmf_afin_der[OF o(9) o(10) x top qq(8) qq(9)])
    qed
  qed
  then show ?thesis unfolding fuzz_angulo_def angulo_universe_eq .
qed

lemma fuzz_velocidad_angular_exacto:
  assumes c: "celda_sin_quiebre velocidad_angular_universe quiebres_velocidad_angular x"
  shows "fuzz_velocidad_angular x l = velocidad_angular l x"
proof -
  let ?s = "- 10 :: real" and ?h = "1 / 10 :: real"
  have n: "2 \<le> (200::nat)" and h: "0 < ?h" by simp_all
  note g = celda_sin_quiebre_grid[OF n h c[unfolded velocidad_angular_universe_eq]]
  have "interp_membership (map (\<lambda>i. ?s + real i * ?h) [0 ..< 200])
           (map (velocidad_angular l) (map (\<lambda>i. ?s + real i * ?h) [0 ..< 200])) x
        = velocidad_angular l x"
  proof (rule interp_exacto[OF n h g(1) g(2)])
    fix lo
    assume lo: "lo \<le> x" "x < lo + ?h" "?s \<le> lo" "lo + ?h \<le> ?s + real (200 - 1) * ?h"
      and e: "lo = ?s + real (nat \<lfloor>(x - ?s) / ?h\<rfloor>) * ?h"
    define k where "k = nat \<lfloor>(x - ?s) / ?h\<rfloor>"
    have "Suc k < 200"
    proof (rule ccontr)
      assume "\<not> Suc k < 200"
      then have "199 \<le> k" by simp
      then have "199 \<le> real k" by simp
      then have "?s + 199 * ?h \<le> lo" unfolding e k_def[symmetric] by simp
      with lo(4) show False by simp
    qed
    then have "Suc (nat \<lfloor>(x - ?s) / ?h\<rfloor>) < 200" unfolding k_def .
    from g(3)[OF this]
    have q: "list_all (\<lambda>b. \<not> (lo < b \<and> b < lo + ?h)) quiebres_velocidad_angular"
      unfolding e .
    have x: "lo \<le> x" "x \<le> lo + ?h" "lo < lo + ?h" using lo by simp_all
    have top: "lo + ?h \<le> 10" using lo(4) by simp
    have bot: "- 10 \<le> lo" using lo(3) by simp
    from q have qq:
      "\<not> (lo < - 4 \<and> - 4 < lo + ?h)" "\<not> (lo < - 1 \<and> - 1 < lo + ?h)"
      "\<not> (lo < 0 \<and> 0 < lo + ?h)" "\<not> (lo < 1 \<and> 1 < lo + ?h)" "\<not> (lo < 4 \<and> 4 < lo + ?h)"
      by (simp_all add: quiebres_velocidad_angular_def)
    show "velocidad_angular l lo
            + (x - lo) * (velocidad_angular l (lo + ?h) - velocidad_angular l lo) / (lo + ?h - lo)
          = velocidad_angular l x"
    proof (cases l)
      case NG
      show ?thesis unfolding NG velocidad_angular.simps
        by (rule trapmf_afin_izq[OF _ _ x bot qq(1) qq(2)]) simp_all
    next
      case NP
      show ?thesis unfolding NP velocidad_angular.simps
        by (rule trimf_afin[OF _ _ x qq(1) qq(2) qq(3)]) simp_all
    next
      case Z
      show ?thesis unfolding Z velocidad_angular.simps
        by (rule trimf_afin[OF _ _ x qq(2) qq(3) qq(4)]) simp_all
    next
      case PP
      show ?thesis unfolding PP velocidad_angular.simps
        by (rule trimf_afin[OF _ _ x qq(3) qq(4) qq(5)]) simp_all
    next
      case PG
      show ?thesis unfolding PG velocidad_angular.simps
        by (rule trapmf_afin_der[OF _ _ x top qq(4) qq(5)]) simp_all
    qed
  qed
  then show ?thesis unfolding fuzz_velocidad_angular_def velocidad_angular_universe_eq .
qed

subsection \<open>Changing the sign of both inputs\<close>

lemma celda_sin_quiebre_gridI:
  fixes s h x :: real
  assumes n: "2 \<le> n" and h: "0 < h" and lo: "s \<le> x" and hi: "x \<le> s + real (n - 1) * h"
    and k: "real k \<le> (x - s) / h" "(x - s) / h < real k + 1"
    and q: "list_all (\<lambda>b. \<not> (s + real k * h < b \<and> b < s + real k * h + h)) qs"
  shows "celda_sin_quiebre (map (\<lambda>i. s + real i * h) [0 ..< n]) qs x"
proof -
  let ?xp = "map (\<lambda>i. s + real i * h) [0 ..< n]"
  have ne: "[0 ..< n] \<noteq> []" using n by simp
  have hd: "hd ?xp = s" using ne by (simp add: hd_map)
  have la: "last ?xp = s + real (n - 1) * h" using ne by (simp add: last_map)
  have x1: "?xp ! 1 - s = h" using n by simp
  have len: "length ?xp = n" by simp
  have "\<lfloor>(x - s) / h\<rfloor> = int k" using k by (intro floor_unique) simp_all
  then have i: "nat \<lfloor>(x - s) / h\<rfloor> = k" by simp
  have "Suc k < n \<longrightarrow> list_all (\<lambda>b. \<not> (?xp ! k < b \<and> b < ?xp ! Suc k)) qs"
  proof
    assume "Suc k < n"
    then have "?xp ! k = s + real k * h" "?xp ! Suc k = s + real k * h + h"
      by (simp_all add: algebra_simps)
    with q show "list_all (\<lambda>b. \<not> (?xp ! k < b \<and> b < ?xp ! Suc k)) qs" by simp
  qed
  then show ?thesis
    using lo hi by (simp only: celda_sin_quiebre_def Let_def hd la x1 i len)
qed

lemma celda_angulo_I:
  assumes k: "real k \<le> (x + (5 / 2) * pi) * 100" "(x + (5 / 2) * pi) * 100 < real k + 1"
    and r: "- pi \<le> x" "x \<le> pi"
    and q: "list_all (\<lambda>b. \<not> (- (5 / 2) * pi + real k * (1 / 100) < b
                         \<and> b < - (5 / 2) * pi + real k * (1 / 100) + 1 / 100)) quiebres_angulo"
  shows "celda_sin_quiebre angulo_universe quiebres_angulo x"
proof -
  have p: "0 < pi" "pi < 3142 / 1000" "314 / 100 < pi" using pi_cotas by simp_all
  show ?thesis
    unfolding angulo_universe_eq
    by (rule celda_sin_quiebre_gridI[OF _ _ _ _ _ _ q]) (use k r p in simp_all)
qed

lemma celda_velocidad_I:
  assumes k: "real k \<le> (x + 10) * 10" "(x + 10) * 10 < real k + 1"
    and r: "- 10 \<le> x" "x \<le> 99 / 10"
    and q: "list_all (\<lambda>b. \<not> (- 10 + real k * (1 / 10) < b
                         \<and> b < - 10 + real k * (1 / 10) + 1 / 10)) quiebres_velocidad_angular"
  shows "celda_sin_quiebre velocidad_angular_universe quiebres_velocidad_angular x"
  unfolding velocidad_angular_universe_eq
  by (rule celda_sin_quiebre_gridI[OF _ _ _ _ _ _ q]) (use k r in simp_all)



subsection \<open>The degrees at particular inputs\<close>

lemma pi_cotas': "0 < pi" "pi < 3142 / 1000" "314 / 100 < pi"
  using pi_cotas by simp_all

lemma normalizar_angulo_valores:
  "normalizar_angulo 1 = 1" "normalizar_angulo (- 1) = - 1"
  "normalizar_angulo (1 / 5) = 1 / 5" "normalizar_angulo (- (1 / 5)) = - (1 / 5)"
  using pi_cotas' by (simp_all add: normalizar_angulo_id)

lemma celda_angulo_valores:
  "celda_sin_quiebre angulo_universe quiebres_angulo 1"
  "celda_sin_quiebre angulo_universe quiebres_angulo (- 1)"
  "celda_sin_quiebre angulo_universe quiebres_angulo (1 / 5)"
  "celda_sin_quiebre angulo_universe quiebres_angulo (- (1 / 5))"
proof -
  note p = pi_cotas'
  show "celda_sin_quiebre angulo_universe quiebres_angulo 1"
    by (rule celda_angulo_I[of 885]) (use p in \<open>simp_all add: quiebres_angulo_def radians_def\<close>)
  show "celda_sin_quiebre angulo_universe quiebres_angulo (- 1)"
    by (rule celda_angulo_I[of 685]) (use p in \<open>simp_all add: quiebres_angulo_def radians_def\<close>)
  show "celda_sin_quiebre angulo_universe quiebres_angulo (1 / 5)"
    by (rule celda_angulo_I[of 805]) (use p in \<open>simp_all add: quiebres_angulo_def radians_def\<close>)
  show "celda_sin_quiebre angulo_universe quiebres_angulo (- (1 / 5))"
    by (rule celda_angulo_I[of 765]) (use p in \<open>simp_all add: quiebres_angulo_def radians_def\<close>)
qed

lemma celda_velocidad_valores:
  "celda_sin_quiebre velocidad_angular_universe quiebres_velocidad_angular (41 / 20)"
  "celda_sin_quiebre velocidad_angular_universe quiebres_velocidad_angular (- (41 / 20))"
  "celda_sin_quiebre velocidad_angular_universe quiebres_velocidad_angular 2"
  "celda_sin_quiebre velocidad_angular_universe quiebres_velocidad_angular (- 2)"
  "celda_sin_quiebre velocidad_angular_universe quiebres_velocidad_angular 0"
proof -
  show "celda_sin_quiebre velocidad_angular_universe quiebres_velocidad_angular (41 / 20)"
    by (rule celda_velocidad_I[of 120]) (simp_all add: quiebres_velocidad_angular_def)
  show "celda_sin_quiebre velocidad_angular_universe quiebres_velocidad_angular (- (41 / 20))"
    by (rule celda_velocidad_I[of 79]) (simp_all add: quiebres_velocidad_angular_def)
  show "celda_sin_quiebre velocidad_angular_universe quiebres_velocidad_angular 2"
    by (rule celda_velocidad_I[of 120]) (simp_all add: quiebres_velocidad_angular_def)
  show "celda_sin_quiebre velocidad_angular_universe quiebres_velocidad_angular (- 2)"
    by (rule celda_velocidad_I[of 80]) (simp_all add: quiebres_velocidad_angular_def)
  show "celda_sin_quiebre velocidad_angular_universe quiebres_velocidad_angular 0"
    by (rule celda_velocidad_I[of 100]) (simp_all add: quiebres_velocidad_angular_def)
qed

lemma fuzz_angulo_1:
  "fuzz_angulo 1 NG = 0" "fuzz_angulo 1 NP = 0" "fuzz_angulo 1 Z = 0" "fuzz_angulo 1 PG = 0"
  "fuzz_angulo (- 1) Z = 0"
  using pi_cotas'
  by (simp_all add: fuzz_angulo_exacto celda_angulo_valores trimf_def trapmf_def radians_def)


lemma fuzz_velocidad_angular_valores:
  "fuzz_velocidad_angular (- 2) NG = 1 / 3" "fuzz_velocidad_angular (- 2) NP = 2 / 3"
  "fuzz_velocidad_angular (- 2) Z = 0" "fuzz_velocidad_angular (- 2) PP = 0"
  "fuzz_velocidad_angular (- 2) PG = 0"
  "fuzz_velocidad_angular 2 NG = 0" "fuzz_velocidad_angular 2 NP = 0"
  "fuzz_velocidad_angular 2 Z = 0"
  "fuzz_velocidad_angular 0 NG = 0" "fuzz_velocidad_angular 0 NP = 0"
  "fuzz_velocidad_angular 0 Z = 1" "fuzz_velocidad_angular 0 PP = 0"
  "fuzz_velocidad_angular 0 PG = 0"
  by (simp_all add: fuzz_velocidad_angular_exacto celda_velocidad_valores trimf_def trapmf_def)

lemma fuzz_nonneg: "0 \<le> fuzz_angulo 1 l" "0 \<le> fuzz_angulo (1 / 5) l"
  "0 \<le> fuzz_angulo (- (1 / 5)) l" "0 \<le> fuzz_velocidad_angular (41 / 20) l"
  "0 \<le> fuzz_velocidad_angular (- (41 / 20)) l" "0 \<le> fuzz_velocidad_angular 2 l"
  using angulo_range velocidad_angular_range
  by (simp_all add: fuzz_angulo_exacto fuzz_velocidad_angular_exacto celda_angulo_valores
        celda_velocidad_valores del: angulo.simps velocidad_angular.simps)


subsection \<open>The degenerate case and a pair of inputs without antisymmetry\<close>

lemma centroide_cero:
  assumes "\<forall>u \<in> set us. mu u = 0"
  shows "centroide mu us = Inl DefuzzError"
proof -
  have "sum_list (map mu us) = 0" using assms by (induction us) simp_all
  then show ?thesis by (simp add: centroide_def)
qed

lemma agregada_cero:
  assumes "activacion ga gv NG = 0" "activacion ga gv NP = 0" "activacion ga gv Z = 0"
    "activacion ga gv PP = 0" "activacion ga gv PG = 0"
  shows "agregada ga gv u = 0"
  using fuerza_range[of NG u] fuerza_range[of NP u] fuerza_range[of Z u]
    fuerza_range[of PP u] fuerza_range[of PG u]
  unfolding agregada_eq assms by (simp del: fuerza.simps)


text \<open>
  C3: \<open>calcular_fuerza\<close> returns a force for every pair of real inputs and every state of
  the simulation object, it never raises; and when the aggregated output membership is zero
  at every point of the force universe (no rule fires) it returns the force 0.  The second
  part is not empty: at the angle 1 and the velocity \<open>- 2\<close> only the set \<open>PP\<close> of the angle
  and the sets \<open>NG\<close> and \<open>NP\<close> of the velocity have a positive degree, and the table has
  no rule for these pairs.
\<close>

theorem C3_calcular_fuerza_total:
  "(\<exists>f s'. calcular_fuerza a v s = Inr (f, s'))
   \<and> (list_all (\<lambda>u. agregada (fuzz_angulo (normalizar_angulo a)) (fuzz_velocidad_angular v) u = 0)
         fuerza_universe
        \<longrightarrow> (\<exists>s'. calcular_fuerza a v s = Inr (0, s')))"
proof (intro conjI impI)
  show "\<exists>f s'. calcular_fuerza a v s = Inr (f, s')"
    using calcular_fuerza_val[of a v s] by blast
next
  let ?mu = "agregada (fuzz_angulo (normalizar_angulo a)) (fuzz_velocidad_angular v)"
  assume "list_all (\<lambda>u. ?mu u = 0) fuerza_universe"
  then have "\<forall>u \<in> set fuerza_universe. ?mu u = 0"
    by (simp only: list_all_iff)
  then have "centroide ?mu fuerza_universe = Inl DefuzzError"
    by (rule centroide_cero)
  then show "\<exists>s'. calcular_fuerza a v s = Inr (0, s')"
    using calcular_fuerza_val[of a v s] by simp
qed

lemma activacion_1_m2: "activacion (fuzz_angulo 1) (fuzz_velocidad_angular (- 2)) l = 0"
  using fuzz_nonneg(1)[of PP]
  by (cases l) (simp_all add: activacion_eq fuzz_angulo_1 fuzz_velocidad_angular_valores)

theorem C3_calcular_fuerza_total_witness:
  "list_all (\<lambda>u. agregada (fuzz_angulo (normalizar_angulo 1)) (fuzz_velocidad_angular (- 2)) u = 0)
     fuerza_universe
   \<and> (\<exists>s'. calcular_fuerza 1 (- 2) simulador = Inr (0, s'))"
proof -
  have h: "list_all
      (\<lambda>u. agregada (fuzz_angulo (normalizar_angulo 1)) (fuzz_velocidad_angular (- 2)) u = 0)
      fuerza_universe"
    by (simp add: normalizar_angulo_valores agregada_cero activacion_1_m2 list_all_iff)
  with C3_calcular_fuerza_total[of 1 "- 2" simulador] show ?thesis by blast
qed








subsection \<open>The degrees at the angle 0\<close>





subsection \<open>The controller at angle 0 and velocity 0\<close>









subsection \<open>Bounds on every run\<close>

lemma sum_list_mono_real:
  fixes f g :: "real \<Rightarrow> real"
  assumes "\<forall>u \<in> set us. f u \<le> g u"
  shows "sum_list (map f us) \<le> sum_list (map g us)"
  using assms by (induction us) (simp_all add: add_mono)

lemma sum_list_nonneg_real:
  fixes f :: "real \<Rightarrow> real"
  assumes "\<forall>u \<in> set us. 0 \<le> f u"
  shows "0 \<le> sum_list (map f us)"
  using assms by (induction us) simp_all

lemma centroide_cotas:
  assumes us: "\<forall>u \<in> set us. lo \<le> u \<and> u \<le> hi"
    and nn: "\<And>u. 0 \<le> mu u"
    and c: "centroide mu us = Inr f"
  shows "lo \<le> f \<and> f \<le> hi"
proof -
  define den where "den = sum_list (map mu us)"
  define num where "num = sum_list (map (\<lambda>u. u * mu u) us)"
  from c have nz: "den \<noteq> 0" and f: "f = num / den"
    by (auto simp add: centroide_def Let_def den_def num_def split: if_splits)
  have "0 \<le> den" unfolding den_def by (rule sum_list_nonneg_real) (simp add: nn)
  with nz have pos: "0 < den" by simp
  have "sum_list (map (\<lambda>u. lo * mu u) us) \<le> num" unfolding num_def
    using us nn by (intro sum_list_mono_real) (simp add: mult_right_mono)
  then have 1: "lo * den \<le> num" by (simp add: den_def sum_list_const_mult)
  have "num \<le> sum_list (map (\<lambda>u. hi * mu u) us)" unfolding num_def
    using us nn by (intro sum_list_mono_real) (simp add: mult_right_mono)
  then have 2: "num \<le> hi * den" by (simp add: den_def sum_list_const_mult)
  from 1 2 pos show ?thesis by (simp add: f pos_le_divide_eq pos_divide_le_eq)
qed

lemma fuerza_universe_cotas: "\<forall>u \<in> set fuerza_universe. - 50 \<le> u \<and> u \<le> 50"
  by (auto simp add: fuerza_universe_eq)

lemma calcular_fuerza_cotas:
  assumes "calcular_fuerza a v s = Inr (f, s')"
  shows "- 50 \<le> f \<and> f \<le> 50"
proof -
  let ?c = "centroide (agregada (fuzz_angulo (normalizar_angulo a)) (fuzz_velocidad_angular v))
              fuerza_universe"
  from assms calcular_fuerza_val[of a v s]
  have f: "f = (case ?c of Inl e \<Rightarrow> 0 | Inr x \<Rightarrow> x)" by auto
  show ?thesis
  proof (cases ?c)
    case (Inl e)
    then show ?thesis by (simp add: f)
  next
    case (Inr x)
    from centroide_cotas[OF fuerza_universe_cotas agregada_nonneg Inr] Inr
    show ?thesis by (simp add: f)
  qed
qed

lemma degrees_normalizar_angulo_cotas:
  "- 180 \<le> degrees (normalizar_angulo t) \<and> degrees (normalizar_angulo t) < 180"
  using normalizar_angulo_range[of t] pi_gt_zero
  by (simp add: degrees_def pos_le_divide_eq pos_divide_less_eq)

lemma paso_cotas:
  assumes "paso e = Inr e'"
    and "\<forall>x \<in> set (historial_angulos e). - 180 \<le> x \<and> x < 180"
    and "\<forall>f \<in> set (historial_fuerzas e). - 50 \<le> f \<and> f \<le> 50"
  shows "(\<forall>x \<in> set (historial_angulos e'). - 180 \<le> x \<and> x < 180)
       \<and> (\<forall>f \<in> set (historial_fuerzas e'). - 50 \<le> f \<and> f \<le> 50)"
proof -
  from paso_historial[OF assms(1)] obtain f s' where
    c: "calcular_fuerza (angulo_actual e) (velocidad_actual e) (sim e) = Inr (f, s')"
    and hf: "historial_fuerzas e' = historial_fuerzas e @ [f]"
    and ha: "historial_angulos e' = historial_angulos e @ [degrees (normalizar_angulo (angulo_actual e'))]"
    by blast
  from calcular_fuerza_cotas[OF c] degrees_normalizar_angulo_cotas[of "angulo_actual e'"] assms(2,3)
  show ?thesis unfolding hf ha by auto
qed

lemma bucle_cotas:
  "bucle n e = Inr e' \<Longrightarrow>
   \<forall>x \<in> set (historial_angulos e). - 180 \<le> x \<and> x < 180 \<Longrightarrow>
   \<forall>f \<in> set (historial_fuerzas e). - 50 \<le> f \<and> f \<le> 50 \<Longrightarrow>
   (\<forall>x \<in> set (historial_angulos e'). - 180 \<le> x \<and> x < 180)
     \<and> (\<forall>f \<in> set (historial_fuerzas e'). - 50 \<le> f \<and> f \<le> 50)"
proof (induction n arbitrary: e)
  case 0
  then show ?case by simp
next
  case (Suc n)
  obtain e1 where p: "paso e = Inr e1" using paso_total by blast
  with Suc.prems(1) have b: "bucle n e1 = Inr e'" by simp
  from paso_cotas[OF p Suc.prems(2,3)] Suc.IH[OF b] show ?case by blast
qed

text \<open>
  Every run of \<open>simular\<close>, from any initial angle and velocity, returns three histories of
  1500 entries, with every recorded angle in \<open>[- 180, 180)\<close> degrees and every recorded
  force in \<open>[- 50, 50]\<close>.  Whether a particular run records the angle \<open>- 180\<close> exactly is
  left open by these bounds.
\<close>

lemma simular_cotas:
  "\<exists>en. simular g v = Inr en
     \<and> length (historial_angulos en) = 1500
     \<and> length (historial_velocidades en) = 1500
     \<and> length (historial_fuerzas en) = 1500
     \<and> (\<forall>x \<in> set (historial_angulos en). - 180 \<le> x \<and> x < 180)
     \<and> (\<forall>f \<in> set (historial_fuerzas en). - 50 \<le> f \<and> f \<le> 50)"
proof -
  obtain en where r: "bucle pasos (estado_inicial g v) = Inr en" using bucle_total by blast
  from bucle_prefix[OF r] estado_inicial_historial[of g v]
  have "length (historial_angulos en) = 1500" "length (historial_velocidades en) = 1500"
    "length (historial_fuerzas en) = 1500" by (simp_all add: pasos_val)
  moreover from bucle_cotas[OF r] estado_inicial_historial[of g v]
  have "(\<forall>x \<in> set (historial_angulos en). - 180 \<le> x \<and> x < 180)
     \<and> (\<forall>f \<in> set (historial_fuerzas en). - 50 \<le> f \<and> f \<le> 50)" by simp
  ultimately show ?thesis using r unfolding simular_def by blast
qed

end
